theory Spec2Isabelle
  imports Main "HOL-Library.Monad_Syntax"
begin

section \<open>The chess engine of \<^verbatim>\<open>chess_game.py\<close>\<close>

text \<open>
  The engine is the class \<^verbatim>\<open>Board\<close>: an 8x8 grid of optional pieces, the side to
  move, two counters and the terminal state. Every method is embedded as a function of
  the same name. A method that can raise (an index out of range, an attribute read on
  \<^verbatim>\<open>None\<close>) or that contains a \<^verbatim>\<open>while\<close> loop returns an \<open>option\<close>:
  \<open>None\<close> stands for "does not return normally". A method that assigns to
  \<^verbatim>\<open>self\<close> returns the board it leaves behind.
\<close>

subsection \<open>Data model\<close>

text \<open>\<^verbatim>\<open>Color = str  # 'w' or 'b'\<close> and \<^verbatim>\<open>PieceType = str  # 'K','Q','R','B','N','P'\<close>.\<close>

datatype color = White | Black

datatype kind = King | Queen | Rook | Bishop | Knight | Pawn

datatype piece = Piece (color: color) (kind: kind)

type_synonym square = "int \<times> int"

type_synonym move = "square \<times> square \<times> kind option"

type_synonym grid = "piece option list list"

text \<open>
  \<^verbatim>\<open>game_over\<close> is \<^verbatim>\<open>None\<close>, \<^verbatim>\<open>'checkmate'\<close> or \<^verbatim>\<open>'stalemate'\<close>; both strings
  are non-empty, so \<^verbatim>\<open>if self.game_over\<close> tests exactly for a value other than
  \<^verbatim>\<open>None\<close>.
\<close>

datatype outcome = Checkmate | Stalemate

record board =
  grid :: grid
  turn :: color
  halfmove_clock :: int
  fullmove_number :: int
  game_over :: "outcome option"
  winner :: "color option"

text \<open>\<^verbatim>\<open>'b' if color == 'w' else 'w'\<close>\<close>

definition opponent :: "color \<Rightarrow> color" where
  "opponent col = (if col = White then Black else White)"

subsection \<open>Python list indexing\<close>

text \<open>
  \<^verbatim>\<open>xs[i]\<close> accepts \<open>- len xs \<le> i < len xs\<close>, a negative index counting from the
  end, and raises \<^verbatim>\<open>IndexError\<close> otherwise.
\<close>

definition py_index :: "'a list \<Rightarrow> int \<Rightarrow> nat option" where
  "py_index xs i =
     (let n = int (length xs); j = (if i < 0 then n + i else i)
      in if 0 \<le> j \<and> j < n then Some (nat j) else None)"

text \<open>\<^verbatim>\<open>self.grid[r][c]\<close>\<close>

definition grid_get :: "grid \<Rightarrow> int \<Rightarrow> int \<Rightarrow> piece option option" where
  "grid_get g r c = do {
     i \<leftarrow> py_index g r;
     j \<leftarrow> py_index (g ! i) c;
     Some (g ! i ! j)
   }"

text \<open>\<^verbatim>\<open>self.grid[r][c] = v\<close>: the row object is fetched, then updated in place.\<close>

definition grid_set :: "grid \<Rightarrow> int \<Rightarrow> int \<Rightarrow> piece option \<Rightarrow> grid option" where
  "grid_set g r c v = do {
     i \<leftarrow> py_index g r;
     j \<leftarrow> py_index (g ! i) c;
     Some (g[i := (g ! i)[j := v]])
   }"

subsection \<open>Construction\<close>

definition order :: "kind list" where
  "order = [Rook, Knight, Bishop, Queen, King, Bishop, Knight, Rook]"

text \<open>
  One \<^verbatim>\<open>for c, kind in enumerate(order)\<close> loop of \<^verbatim>\<open>place_start_position\<close>: the
  back rank \<open>home\<close> and the pawn rank \<open>pawns\<close> of one side.
\<close>

fun place_side :: "grid \<Rightarrow> color \<Rightarrow> int \<Rightarrow> int \<Rightarrow> (int \<times> kind) list \<Rightarrow> grid option" where
  "place_side g col home pawns [] = Some g"
| "place_side g col home pawns ((c, k) # rest) = do {
     g1 \<leftarrow> grid_set g home c (Some (Piece col k));
     g2 \<leftarrow> grid_set g1 pawns c (Some (Piece col Pawn));
     place_side g2 col home pawns rest
   }"

definition place_start_position :: "board \<Rightarrow> board option" where
  "place_start_position b = do {
     g1 \<leftarrow> place_side (grid b) Black 0 1 (zip [0..7] order);
     g2 \<leftarrow> place_side g1 White 7 6 (zip [0..7] order);
     Some (b\<lparr>grid := g2\<rparr>)
   }"

text \<open>\<^verbatim>\<open>Board.__init__\<close>\<close>

definition Board_init :: "board option" where
  "Board_init = place_start_position
     \<lparr>grid = replicate 8 (replicate 8 None), turn = White, halfmove_clock = 0,
      fullmove_number = 1, game_over = None, winner = None\<rparr>"

subsection \<open>Queries on the grid\<close>

definition in_bounds :: "int \<Rightarrow> int \<Rightarrow> bool" where
  "in_bounds r c = (0 \<le> r \<and> r < 8 \<and> 0 \<le> c \<and> c < 8)"

definition empty :: "grid \<Rightarrow> int \<Rightarrow> int \<Rightarrow> bool option" where
  "empty g r c = do { p \<leftarrow> grid_get g r c; Some (p = None) }"

definition occupied_by :: "grid \<Rightarrow> int \<Rightarrow> int \<Rightarrow> color \<Rightarrow> bool option" where
  "occupied_by g r c col = do {
     p \<leftarrow> grid_get g r c;
     Some (case p of None \<Rightarrow> False | Some pc \<Rightarrow> color pc = col)
   }"

text \<open>The squares in the order of \<^verbatim>\<open>for r in range(8): for c in range(8)\<close>.\<close>

definition all_squares :: "square list" where
  "all_squares = List.product [0..7] [0..7]"

fun king_scan :: "grid \<Rightarrow> color \<Rightarrow> square list \<Rightarrow> square option option" where
  "king_scan g col [] = Some None"
| "king_scan g col ((r, c) # rest) = do {
     p \<leftarrow> grid_get g r c;
     case p of
       None \<Rightarrow> king_scan g col rest
     | Some pc \<Rightarrow>
         if color pc = col \<and> kind pc = King then Some (Some (r, c))
         else king_scan g col rest
   }"

definition king_position :: "board \<Rightarrow> color \<Rightarrow> square option option" where
  "king_position b col = king_scan (grid b) col all_squares"

subsection \<open>Pseudo-move generation\<close>

text \<open>The promotion test of a pawn move to row \<open>nr\<close>.\<close>

definition pawn_move :: "square \<Rightarrow> int \<Rightarrow> int \<Rightarrow> move" where
  "pawn_move sq nr nc = (if nr = 0 \<or> nr = 7 then (sq, (nr, nc), Some Queen) else (sq, (nr, nc), None))"

text \<open>\<^verbatim>\<open>for dc in (-1, 1)\<close>: the captures of a pawn.\<close>

fun pawn_captures :: "grid \<Rightarrow> square \<Rightarrow> piece \<Rightarrow> int \<Rightarrow> int list \<Rightarrow> move list \<Rightarrow> move list option" where
  "pawn_captures g sq p dir [] moves = Some moves"
| "pawn_captures g sq p dir (dc # dcs) moves = do {
     let nr = fst sq + dir;
     let nc = snd sq + dc;
     taken \<leftarrow> (if in_bounds nr nc then map_option Not (empty g nr nc) else Some False);
     moves' \<leftarrow> (if taken then do {
                   own \<leftarrow> occupied_by g nr nc (color p);
                   Some (if \<not> own then moves @ [pawn_move sq nr nc] else moves)
                 } else Some moves);
     pawn_captures g sq p dir dcs moves'
   }"

definition pawn_moves :: "grid \<Rightarrow> square \<Rightarrow> piece \<Rightarrow> move list option" where
  "pawn_moves g sq p = do {
     let r = fst sq;
     let c = snd sq;
     let dir = (if color p = White then - 1 else 1);
     let start_row = (if color p = White then 6 else 1);
     let nr = r + dir;
     fwd \<leftarrow> (if in_bounds nr c then empty g nr c else Some False);
     moves \<leftarrow> (if fwd then do {
                  let moves1 = [pawn_move sq nr c];
                  let nr2 = r + 2 * dir;
                  two \<leftarrow> (if r = start_row then empty g nr2 c else Some False);
                  Some (if two then moves1 @ [(sq, (nr2, c), None)] else moves1)
                } else Some []);
     pawn_captures g sq p dir [- 1, 1] moves
   }"

definition knight_offsets :: "(int \<times> int) list" where
  "knight_offsets = [(- 2, - 1), (- 2, 1), (- 1, - 2), (- 1, 2), (1, - 2), (1, 2), (2, - 1), (2, 1)]"

fun knight_loop :: "grid \<Rightarrow> square \<Rightarrow> piece \<Rightarrow> (int \<times> int) list \<Rightarrow> move list \<Rightarrow> move list option" where
  "knight_loop g sq p [] moves = Some moves"
| "knight_loop g sq p ((dr, dc) # rest) moves = do {
     let nr = fst sq + dr;
     let nc = snd sq + dc;
     if \<not> in_bounds nr nc then knight_loop g sq p rest moves
     else do {
       own \<leftarrow> occupied_by g nr nc (color p);
       if own then knight_loop g sq p rest moves
       else knight_loop g sq p rest (moves @ [(sq, (nr, nc), None)])
     }
   }"

text \<open>
  The \<^verbatim>\<open>while self.in_bounds(nr, nc)\<close> loop of a sliding piece, for one direction.
  Nothing in the loop itself makes it stop when \<open>dr = dc = 0\<close>, so it is a partial
  function; that it returns for the directions the code uses is proved below.
\<close>

partial_function (option) ray ::
  "grid \<Rightarrow> square \<Rightarrow> piece \<Rightarrow> int \<Rightarrow> int \<Rightarrow> int \<Rightarrow> int \<Rightarrow> move list \<Rightarrow> move list option" where
  "ray g sq p dr dc nr nc moves =
     (if in_bounds nr nc then do {
        own \<leftarrow> occupied_by g nr nc (color p);
        if own then Some moves
        else do {
          e \<leftarrow> empty g nr nc;
          if \<not> e then Some (moves @ [(sq, (nr, nc), None)])
          else ray g sq p dr dc (nr + dr) (nc + dc) (moves @ [(sq, (nr, nc), None)])
        }
      } else Some moves)"

declare ray.simps [code]

definition directions :: "kind \<Rightarrow> (int \<times> int) list" where
  "directions k =
     (if k \<in> {Bishop, Queen} then [(- 1, - 1), (- 1, 1), (1, - 1), (1, 1)] else []) @
     (if k \<in> {Rook, Queen} then [(- 1, 0), (1, 0), (0, - 1), (0, 1)] else [])"

fun slide_loop :: "grid \<Rightarrow> square \<Rightarrow> piece \<Rightarrow> (int \<times> int) list \<Rightarrow> move list \<Rightarrow> move list option" where
  "slide_loop g sq p [] moves = Some moves"
| "slide_loop g sq p ((dr, dc) # rest) moves = do {
     moves' \<leftarrow> ray g sq p dr dc (fst sq + dr) (snd sq + dc) moves;
     slide_loop g sq p rest moves'
   }"

text \<open>\<^verbatim>\<open>for dr in (-1, 0, 1): for dc in (-1, 0, 1)\<close>, as one loop over the pairs.\<close>

fun king_loop :: "grid \<Rightarrow> square \<Rightarrow> piece \<Rightarrow> (int \<times> int) list \<Rightarrow> move list \<Rightarrow> move list option" where
  "king_loop g sq p [] moves = Some moves"
| "king_loop g sq p ((dr, dc) # rest) moves =
     (if dr = 0 \<and> dc = 0 then king_loop g sq p rest moves
      else do {
        let nr = fst sq + dr;
        let nc = snd sq + dc;
        if \<not> in_bounds nr nc then king_loop g sq p rest moves
        else do {
          own \<leftarrow> occupied_by g nr nc (color p);
          if own then king_loop g sq p rest moves
          else king_loop g sq p rest (moves @ [(sq, (nr, nc), None)])
        }
      })"

definition generate_pseudo_moves_from :: "grid \<Rightarrow> square \<Rightarrow> piece \<Rightarrow> move list option" where
  "generate_pseudo_moves_from g sq p =
     (if kind p = Pawn then pawn_moves g sq p
      else if kind p = Knight then knight_loop g sq p knight_offsets []
      else if kind p \<in> {Bishop, Rook, Queen} then slide_loop g sq p (directions (kind p)) []
      else if kind p = King then king_loop g sq p (List.product [- 1, 0, 1] [- 1, 0, 1]) []
      else Some [])"

subsection \<open>Attack and check detection\<close>

fun attack_scan :: "grid \<Rightarrow> square \<Rightarrow> color \<Rightarrow> square list \<Rightarrow> bool option" where
  "attack_scan g sq col [] = Some False"
| "attack_scan g sq col ((r, c) # rest) = do {
     p \<leftarrow> grid_get g r c;
     case p of
       None \<Rightarrow> attack_scan g sq col rest
     | Some pc \<Rightarrow>
         if color pc = col then do {
           ms \<leftarrow> generate_pseudo_moves_from g (r, c) pc;
           if list_ex (\<lambda>(_, to, _). to = sq) ms then Some True
           else attack_scan g sq col rest
         } else attack_scan g sq col rest
   }"

definition is_square_attacked_by :: "board \<Rightarrow> square \<Rightarrow> color \<Rightarrow> bool option" where
  "is_square_attacked_by b sq attacker_color = attack_scan (grid b) sq attacker_color all_squares"

definition in_check :: "board \<Rightarrow> color \<Rightarrow> bool option" where
  "in_check b col = do {
     kpos \<leftarrow> king_position b col;
     case kpos of
       None \<Rightarrow> Some False
     | Some k \<Rightarrow> is_square_attacked_by b k (opponent col)
   }"

subsection \<open>Legality, move application, terminal state\<close>

text \<open>
  \<^verbatim>\<open>piece if promo is None else Piece(piece.color, promo)\<close>: reading
  \<^verbatim>\<open>piece.color\<close> raises when the from-square was empty.
\<close>

definition placed :: "piece option \<Rightarrow> kind option \<Rightarrow> piece option option" where
  "placed pc promo =
     (case promo of
        None \<Rightarrow> Some pc
      | Some k \<Rightarrow> (case pc of None \<Rightarrow> None | Some q \<Rightarrow> Some (Some (Piece (color q) k))))"

text \<open>
  \<^verbatim>\<open>is_legal_move\<close> writes the move into \<^verbatim>\<open>self.grid\<close>, asks \<^verbatim>\<open>in_check\<close>, and
  writes the two old contents back; it returns its answer and the board it leaves.
\<close>

definition is_legal_move :: "board \<Rightarrow> move \<Rightarrow> color \<Rightarrow> (bool \<times> board) option" where
  "is_legal_move b mv col =
     (case mv of ((r1, c1), (r2, c2), promo) \<Rightarrow> do {
        pc \<leftarrow> grid_get (grid b) r1 c1;
        captured \<leftarrow> grid_get (grid b) r2 c2;
        new \<leftarrow> placed pc promo;
        g1 \<leftarrow> grid_set (grid b) r2 c2 new;
        g2 \<leftarrow> grid_set g1 r1 c1 None;
        king_in_check \<leftarrow> in_check (b\<lparr>grid := g2\<rparr>) col;
        g3 \<leftarrow> grid_set g2 r1 c1 pc;
        g4 \<leftarrow> grid_set g3 r2 c2 captured;
        Some (\<not> king_in_check, b\<lparr>grid := g4\<rparr>)
      })"

text \<open>The inner loop of \<^verbatim>\<open>generate_legal_moves\<close> over the pseudo-moves of one piece.\<close>

fun legal_filter :: "board \<Rightarrow> color \<Rightarrow> move list \<Rightarrow> move list \<Rightarrow> (move list \<times> board) option" where
  "legal_filter b col [] legal = Some (legal, b)"
| "legal_filter b col (mv # mvs) legal = do {
     (ok, b') \<leftarrow> is_legal_move b mv col;
     legal_filter b' col mvs (if ok then legal @ [mv] else legal)
   }"

text \<open>The outer loops of \<^verbatim>\<open>generate_legal_moves\<close> over the squares.\<close>

fun legal_scan :: "board \<Rightarrow> color \<Rightarrow> square list \<Rightarrow> move list \<Rightarrow> (move list \<times> board) option" where
  "legal_scan b col [] legal = Some (legal, b)"
| "legal_scan b col ((r, c) # rest) legal = do {
     p \<leftarrow> grid_get (grid b) r c;
     case p of
       None \<Rightarrow> legal_scan b col rest legal
     | Some pc \<Rightarrow>
         if color pc = col then do {
           ms \<leftarrow> generate_pseudo_moves_from (grid b) (r, c) pc;
           (legal', b') \<leftarrow> legal_filter b col ms legal;
           legal_scan b' col rest legal'
         } else legal_scan b col rest legal
   }"

definition generate_legal_moves :: "board \<Rightarrow> color \<Rightarrow> (move list \<times> board) option" where
  "generate_legal_moves b col = legal_scan b col all_squares []"

definition update_game_state :: "board \<Rightarrow> board option" where
  "update_game_state b =
     (if game_over b \<noteq> None then Some b
      else do {
        let col = turn b;
        (legal, b1) \<leftarrow> generate_legal_moves b col;
        if length legal = 0 then do {
          chk \<leftarrow> in_check b1 col;
          if chk then Some (b1\<lparr>game_over := Some Checkmate, winner := Some (opponent col)\<rparr>)
          else Some (b1\<lparr>game_over := Some Stalemate, winner := None\<rparr>)
        } else Some b1
      })"

definition make_move :: "board \<Rightarrow> move \<Rightarrow> board option" where
  "make_move b mv =
     (case mv of ((r1, c1), (r2, c2), promo) \<Rightarrow> do {
        pc \<leftarrow> grid_get (grid b) r1 c1;
        captured \<leftarrow> grid_get (grid b) r2 c2;
        new \<leftarrow> placed pc promo;
        g1 \<leftarrow> grid_set (grid b) r2 c2 new;
        g2 \<leftarrow> grid_set g1 r1 c1 None;
        let b1 = b\<lparr>grid := g2, turn := opponent (turn b)\<rparr>;
        let b2 = (if turn b1 = White then b1\<lparr>fullmove_number := fullmove_number b1 + 1\<rparr> else b1);
        update_game_state b2
      })"

section \<open>Notions for the proofs\<close>

text \<open>
  A grid as \<^verbatim>\<open>Board.__init__\<close> and \<^verbatim>\<open>clone\<close> build it: eight rows of eight cells. No method
  changes the shape.
\<close>

definition wf_grid :: "grid \<Rightarrow> bool" where
  "wf_grid g = (length g = 8 \<and> list_all (\<lambda>row. length row = 8) g)"

text \<open>
  The content of a square that is on the board, and the grid with one such square rewritten.
\<close>

definition cell :: "grid \<Rightarrow> int \<Rightarrow> int \<Rightarrow> piece option" where
  "cell g r c = g ! nat r ! nat c"

definition put :: "grid \<Rightarrow> int \<Rightarrow> int \<Rightarrow> piece option \<Rightarrow> grid" where
  "put g r c v = g[nat r := (g ! nat r)[nat c := v]]"

text \<open>
  The square holds a piece of the given side (what \<^verbatim>\<open>occupied_by\<close> answers on the board).
\<close>

definition own :: "grid \<Rightarrow> color \<Rightarrow> int \<Rightarrow> int \<Rightarrow> bool" where
  "own g col r c = (case cell g r c of None \<Rightarrow> False | Some pc \<Rightarrow> color pc = col)"

text \<open>
  What every generated pseudo-move satisfies: it starts on the given square, ends on the
  board on a square that holds no piece of the mover's side, and promotes (to a Queen) exactly
  when a pawn reaches row 0 or row 7.
\<close>

definition pseudo_ok :: "grid \<Rightarrow> square \<Rightarrow> piece \<Rightarrow> move \<Rightarrow> bool" where
  "pseudo_ok g sq p m =
     (case m of (f, (nr, nc), promo) \<Rightarrow>
        f = sq \<and> in_bounds nr nc \<and> \<not> own g (color p) nr nc \<and>
        promo = (if kind p = Pawn \<and> (nr = 0 \<or> nr = 7) then Some Queen else None))"

text \<open>
  The number of steps a ray can still take before it leaves the board.
\<close>

definition ray_left :: "int \<Rightarrow> int \<Rightarrow> int \<Rightarrow> int \<Rightarrow> nat" where
  "ray_left dr dc nr nc =
     (if 0 < dr then nat (8 - nr) else if dr < 0 then nat (nr + 1)
      else if 0 < dc then nat (8 - nc) else nat (nc + 1))"

text \<open>
  Section 4.2 of the specification: a square is attacked by a side when some pseudo-move
  generated for some piece of that side ends on it.
\<close>

definition attacks_from :: "grid \<Rightarrow> color \<Rightarrow> square \<Rightarrow> square \<Rightarrow> bool" where
  "attacks_from g by_side sq from =
     (case grid_get g (fst from) (snd from) of
        Some (Some pc) \<Rightarrow>
          color pc = by_side \<and>
          (case generate_pseudo_moves_from g from pc of
             Some ms \<Rightarrow> list_ex (\<lambda>m. fst (snd m) = sq) ms
           | None \<Rightarrow> False)
      | _ \<Rightarrow> False)"

definition is_attacked :: "grid \<Rightarrow> square \<Rightarrow> color \<Rightarrow> bool" where
  "is_attacked g sq by_side = list_ex (attacks_from g by_side sq) all_squares"

text \<open>
  The squares holding a King of a side, in scan order.
\<close>

definition is_king :: "grid \<Rightarrow> color \<Rightarrow> square \<Rightarrow> bool" where
  "is_king g col sq = (grid_get g (fst sq) (snd sq) = Some (Some (Piece col King)))"

definition kings :: "grid \<Rightarrow> color \<Rightarrow> square list" where
  "kings g col = filter (is_king g col) all_squares"

text \<open>
  What \<^verbatim>\<open>in_check\<close> answers on a board: the first King found, if any, is attacked.
\<close>

definition checked :: "grid \<Rightarrow> color \<Rightarrow> bool" where
  "checked g col =
     (case find (is_king g col) all_squares of
        None \<Rightarrow> False
      | Some k \<Rightarrow> is_attacked g k (opponent col))"

text \<open>
  Stated without an order of search: some King of the side is attacked by the opponent.
\<close>

definition king_attacked :: "grid \<Rightarrow> color \<Rightarrow> bool" where
  "king_attacked g s = list_ex (\<lambda>k. is_king g s k \<and> is_attacked g k (opponent s)) all_squares"

text \<open>
  The position a move leads to: the moved piece, or a new piece of the promotion role and
  the mover's colour, stands on the to-square, and the from-square is empty.
\<close>

definition position_after :: "grid \<Rightarrow> move \<Rightarrow> grid" where
  "position_after g mv =
     (case mv of ((r1, c1), (r2, c2), promo) \<Rightarrow>
        put (put g r2 c2
               (case promo of
                  None \<Rightarrow> cell g r1 c1
                | Some k \<Rightarrow> map_option (\<lambda>q. Piece (color q) k) (cell g r1 c1)))
          r1 c1 None)"

text \<open>
  A move between two squares of the board whose from-square holds a piece.
\<close>

definition valid_move :: "grid \<Rightarrow> move \<Rightarrow> bool" where
  "valid_move g mv =
     (case mv of ((r1, c1), (r2, c2), promo) \<Rightarrow>
        in_bounds r1 c1 \<and> in_bounds r2 c2 \<and> cell g r1 c1 \<noteq> None)"

text \<open>
  A move is legal for a side when that side is not in check in the position the move leads
  to; the legal moves of a side, square by square in scan order, computed without any change
  of state.
\<close>

definition legal :: "grid \<Rightarrow> color \<Rightarrow> move \<Rightarrow> bool" where
  "legal g col mv = (\<not> checked (position_after g mv) col)"

definition legal_from :: "grid \<Rightarrow> color \<Rightarrow> square \<Rightarrow> move list" where
  "legal_from g col sq =
     (case cell g (fst sq) (snd sq) of
        None \<Rightarrow> []
      | Some pc \<Rightarrow>
          if color pc = col then
            (case generate_pseudo_moves_from g sq pc of
               None \<Rightarrow> []
             | Some ms \<Rightarrow> filter (legal g col) ms)
          else [])"

definition legal_moves :: "grid \<Rightarrow> color \<Rightarrow> move list" where
  "legal_moves g col = concat (map (legal_from g col) all_squares)"

text \<open>
  The board \<^verbatim>\<open>make_move\<close> hands to \<^verbatim>\<open>update_game_state\<close>.
\<close>

definition moved :: "board \<Rightarrow> move \<Rightarrow> board" where
  "moved b mv =
     (if turn b = Black
      then b\<lparr>grid := position_after (grid b) mv, turn := White,
             fullmove_number := fullmove_number b + 1\<rparr>
      else b\<lparr>grid := position_after (grid b) mv, turn := Black\<rparr>)"

text \<open>
  The boards that arise from \<^verbatim>\<open>Board()\<close> by \<^verbatim>\<open>make_move\<close> with a move that
  \<^verbatim>\<open>generate_legal_moves\<close> returned for the side to move; \<open>in_play\<close> also asks, as
  the game loop does, that the game is not over before each move.
\<close>

inductive reachable :: "board \<Rightarrow> bool" where
  start: "Board_init = Some b \<Longrightarrow> reachable b"
| step: "reachable b \<Longrightarrow> generate_legal_moves b (turn b) = Some (ms, b1) \<Longrightarrow> m \<in> set ms \<Longrightarrow>
         make_move b1 m = Some b' \<Longrightarrow> reachable b'"

inductive in_play :: "board \<Rightarrow> bool" where
  new_game: "Board_init = Some b \<Longrightarrow> in_play b"
| ply: "in_play b \<Longrightarrow> game_over b = None \<Longrightarrow>
        generate_legal_moves b (turn b) = Some (ms, b1) \<Longrightarrow> m \<in> set ms \<Longrightarrow>
        make_move b1 m = Some b' \<Longrightarrow> in_play b'"

text \<open>
  The invariant of play: the shape of the grid, one King of each side, and the side that
  has just moved is not in check.
\<close>

definition sound :: "board \<Rightarrow> bool" where
  "sound b = (wf_grid (grid b) \<and> length (kings (grid b) White) = 1 \<and>
     length (kings (grid b) Black) = 1 \<and> \<not> checked (grid b) (opponent (turn b)))"

text \<open>
  The game loop on a list of moves: each move must be one that \<^verbatim>\<open>generate_legal_moves\<close>
  returns for the side to move, and the game must not be over.
\<close>

fun play :: "board \<Rightarrow> move list \<Rightarrow> board option" where
  "play b [] = Some b"
| "play b (m # ms) =
     (if game_over b \<noteq> None then None
      else do {
        (legal, b1) \<leftarrow> generate_legal_moves b (turn b);
        if m \<in> set legal then do { b' \<leftarrow> make_move b1 m; play b' ms } else None
      })"

text \<open>
  The value of \<^verbatim>\<open>Board()\<close> (lemma \<open>Board_init_start\<close>) and the moves the specification
  expects there.
\<close>

definition start_board :: board where
  "start_board =
     \<lparr>grid = [map (\<lambda>k. Some (Piece Black k)) order,
              replicate 8 (Some (Piece Black Pawn)),
              replicate 8 None, replicate 8 None, replicate 8 None, replicate 8 None,
              replicate 8 (Some (Piece White Pawn)),
              map (\<lambda>k. Some (Piece White k)) order],
      turn = White, halfmove_clock = 0, fullmove_number = 1, game_over = None, winner = None\<rparr>"

definition start_moves :: "move list" where
  "start_moves =
     concat (map (\<lambda>c. [((6, c), (5, c), None), ((6, c), (4, c), None)]) [0..7]) @
     [((7, 1), (5, 0), None), ((7, 1), (5, 2), None), ((7, 6), (5, 5), None), ((7, 6), (5, 7), None)]"

text \<open>
  Positions for the examples: the fool's mate of the specification, its stalemate position,
  a pawn on e7, a board without a White King, a pinned Bishop, the start position after
  1. e4, and a board with two White Kings (outside the data model: there
  \<^verbatim>\<open>king_position\<close> finds the first King and \<^verbatim>\<open>in_check\<close> tests that one).
\<close>

definition board_of :: "(square \<times> piece) list \<Rightarrow> color \<Rightarrow> board" where
  "board_of pieces side =
     \<lparr>grid = foldl (\<lambda>g ((r, c), p). put g r c (Some p)) (replicate 8 (replicate 8 None)) pieces,
      turn = side, halfmove_clock = 0, fullmove_number = 1, game_over = None, winner = None\<rparr>"

definition fools_mate :: "move list" where
  "fools_mate = [((6, 5), (5, 5), None), ((1, 4), (3, 4), None),
                 ((6, 6), (4, 6), None), ((0, 3), (4, 7), None)]"

definition mate_board :: board where
  "mate_board = start_board\<lparr>grid := foldl position_after (grid start_board) fools_mate,
     fullmove_number := 3\<rparr>"

definition stalemate_board :: board where
  "stalemate_board = board_of
     [((7, 0), Piece White King), ((5, 0), Piece Black King), ((5, 1), Piece Black Queen)] White"

definition promotion_board :: board where
  "promotion_board = board_of
     [((7, 4), Piece White King), ((0, 0), Piece Black King), ((1, 4), Piece White Pawn)] White"

definition kingless_board :: board where
  "kingless_board = board_of [((0, 0), Piece Black King), ((0, 7), Piece Black Rook),
     ((7, 7), Piece White Rook)] White"

definition pin_board :: board where
  "pin_board = board_of [((7, 4), Piece White King), ((6, 4), Piece White Bishop),
     ((0, 4), Piece Black Rook), ((0, 0), Piece Black King)] White"

definition black_reply_board :: board where
  "black_reply_board = start_board\<lparr>grid := position_after (grid start_board) ((6, 4), (4, 4), None),
     turn := Black\<rparr>"

definition two_kings_board :: board where
  "two_kings_board = board_of [((5, 0), Piece White King), ((7, 7), Piece White King),
     ((0, 7), Piece Black Rook), ((0, 3), Piece Black King)] White"

section \<open>Lemmas\<close>

subsection \<open>The start position\<close>

lemma Board_init_start: "Board_init = Some start_board"
  by code_simp

lemma wf_start: "wf_grid (grid start_board)"
  by code_simp

subsection \<open>The fields that move generation leaves alone\<close>

lemma is_legal_move_frame:
  "is_legal_move b mv col = Some (ok, b') \<Longrightarrow> \<exists>g. b' = b\<lparr>grid := g\<rparr>"
  unfolding is_legal_move_def by (auto split: prod.splits Option.bind_splits)

lemma legal_filter_frame:
  "legal_filter b col ms acc = Some (res, b') \<Longrightarrow> \<exists>g. b' = b\<lparr>grid := g\<rparr>"
proof (induction ms arbitrary: b acc)
  case Nil
  then have "b' = b\<lparr>grid := grid b\<rparr>" by simp
  then show ?case by blast
next
  case (Cons m ms)
  from Cons.prems obtain ok b1 where
    1: "is_legal_move b m col = Some (ok, b1)" and
    2: "legal_filter b1 col ms (if ok then acc @ [m] else acc) = Some (res, b')"
    by (auto split: Option.bind_splits)
  from is_legal_move_frame [OF 1] obtain g1 where "b1 = b\<lparr>grid := g1\<rparr>" ..
  moreover from Cons.IH [OF 2] obtain g2 where "b' = b1\<lparr>grid := g2\<rparr>" ..
  ultimately have "b' = b\<lparr>grid := g2\<rparr>" by simp
  then show ?case ..
qed

lemma legal_scan_frame:
  "legal_scan b col sqs acc = Some (res, b') \<Longrightarrow> \<exists>g. b' = b\<lparr>grid := g\<rparr>"
proof (induction sqs arbitrary: b acc)
  case Nil
  then have "b' = b\<lparr>grid := grid b\<rparr>" by simp
  then show ?case by blast
next
  case (Cons sq sqs)
  obtain r c where sq: "sq = (r, c)" by (cases sq)
  from Cons.prems obtain acc1 b1 where
    1: "b1 = b \<or> (\<exists>ms. legal_filter b col ms acc = Some (acc1, b1))" and
    2: "legal_scan b1 col sqs acc1 = Some (res, b')"
    unfolding sq by (auto split: Option.bind_splits option.splits if_splits)
  from 1 legal_filter_frame obtain g1 where "b1 = b\<lparr>grid := g1\<rparr>"
    by (metis board.surjective board.update_convs(1))
  moreover from Cons.IH [OF 2] obtain g2 where "b' = b1\<lparr>grid := g2\<rparr>" ..
  ultimately have "b' = b\<lparr>grid := g2\<rparr>" by simp
  then show ?case ..
qed

lemma update_game_state_turn:
  assumes "update_game_state b = Some b'"
  shows "turn b' = turn b \<and> fullmove_number b' = fullmove_number b \<and> halfmove_clock b' = halfmove_clock b"
proof (cases "game_over b = None")
  case False
  with assms show ?thesis by (simp add: update_game_state_def)
next
  case True
  with assms obtain legal b1 where
    1: "generate_legal_moves b (turn b) = Some (legal, b1)" and
    2: "b' = b1 \<or> b' = b1\<lparr>game_over := Some Checkmate, winner := Some (opponent (turn b))\<rparr>
          \<or> b' = b1\<lparr>game_over := Some Stalemate, winner := None\<rparr>"
    by (auto simp: update_game_state_def Let_def split: Option.bind_splits if_splits)
  from 1 legal_scan_frame obtain g where "b1 = b\<lparr>grid := g\<rparr>"
    unfolding generate_legal_moves_def by blast
  with 2 show ?thesis by auto
qed

subsection \<open>Reading and writing squares of the board\<close>

lemma wf_grid_row: "wf_grid g \<Longrightarrow> i < 8 \<Longrightarrow> length (g ! i) = 8"
  by (simp add: wf_grid_def list_all_length)

lemma wf_grid_length: "wf_grid g \<Longrightarrow> length g = 8"
  by (simp add: wf_grid_def)

lemma py_index_wf: "length xs = 8 \<Longrightarrow> 0 \<le> i \<Longrightarrow> i < 8 \<Longrightarrow> py_index xs i = Some (nat i)"
  by (simp add: py_index_def)

lemma grid_get_wf:
  assumes "wf_grid g" "in_bounds r c"
  shows "grid_get g r c = Some (cell g r c)"
proof -
  from assms have r: "0 \<le> r" "r < 8" and c: "0 \<le> c" "c < 8" by (auto simp: in_bounds_def)
  then have "nat r < 8" by linarith
  with assms have "length (g ! nat r) = 8" by (simp add: wf_grid_row)
  with assms r c show ?thesis
    by (simp add: grid_get_def cell_def py_index_wf wf_grid_length)
qed

lemma grid_set_wf:
  assumes "wf_grid g" "in_bounds r c"
  shows "grid_set g r c v = Some (put g r c v)"
proof -
  from assms have r: "0 \<le> r" "r < 8" and c: "0 \<le> c" "c < 8" by (auto simp: in_bounds_def)
  then have "nat r < 8" by linarith
  with assms have "length (g ! nat r) = 8" by (simp add: wf_grid_row)
  with assms r c show ?thesis
    by (simp add: grid_set_def put_def py_index_wf wf_grid_length)
qed

lemma wf_put: "wf_grid g \<Longrightarrow> wf_grid (put g r c v)"
  by (cases "nat r < 8") (auto simp: wf_grid_def put_def list_all_length nth_list_update)

lemma cell_put:
  assumes "wf_grid g" "in_bounds r c" "in_bounds r' c'"
  shows "cell (put g r c v) r' c' = (if r' = r \<and> c' = c then v else cell g r' c')"
proof -
  from assms have r: "nat r < 8" "nat r' < 8" "nat c < 8" "nat c' < 8"
    and eq: "nat r' = nat r \<longleftrightarrow> r' = r" "nat c' = nat c \<longleftrightarrow> c' = c"
    by (auto simp: in_bounds_def)
  with assms(1) have "length g = 8" "length (g ! nat r) = 8"
    by (simp_all add: wf_grid_length wf_grid_row)
  with r eq show ?thesis
    by (auto simp: cell_def put_def nth_list_update)
qed

lemma grid_ext:
  assumes "wf_grid g" "wf_grid g'" and eq: "\<And>r c. in_bounds r c \<Longrightarrow> cell g r c = cell g' r c"
  shows "g = g'"
proof (rule nth_equalityI)
  from assms show "length g = length g'" by (simp add: wf_grid_length)
next
  fix i assume "i < length g"
  with assms have i: "i < 8" by (simp add: wf_grid_length)
  show "g ! i = g' ! i"
  proof (rule nth_equalityI)
    from assms i show "length (g ! i) = length (g' ! i)" by (simp add: wf_grid_row)
  next
    fix j assume "j < length (g ! i)"
    with assms i have j: "j < 8" by (simp add: wf_grid_row)
    with i have "in_bounds (int i) (int j)" by (simp add: in_bounds_def)
    from eq [OF this] show "g ! i ! j = g' ! i ! j" by (simp add: cell_def)
  qed
qed

lemma empty_wf: "wf_grid g \<Longrightarrow> in_bounds r c \<Longrightarrow> empty g r c = Some (cell g r c = None)"
  by (simp add: empty_def grid_get_wf)

lemma occupied_by_wf: "wf_grid g \<Longrightarrow> in_bounds r c \<Longrightarrow> occupied_by g r c col = Some (own g col r c)"
  by (simp add: occupied_by_def own_def grid_get_wf)

subsection \<open>Pseudo-move generation returns, and what it returns\<close>

lemma pseudo_ok_plain:
  "kind p \<noteq> Pawn \<Longrightarrow> in_bounds nr nc \<Longrightarrow> \<not> own g (color p) nr nc \<Longrightarrow>
   pseudo_ok g sq p (sq, (nr, nc), None)"
  by (simp add: pseudo_ok_def)

lemma pseudo_ok_pawn:
  "kind p = Pawn \<Longrightarrow> in_bounds nr nc \<Longrightarrow> \<not> own g (color p) nr nc \<Longrightarrow>
   pseudo_ok g sq p (pawn_move sq nr nc)"
  by (simp add: pseudo_ok_def pawn_move_def)

lemma knight_loop_ok:
  assumes "wf_grid g" "kind p \<noteq> Pawn"
  shows "\<forall>m\<in>set acc. pseudo_ok g sq p m \<Longrightarrow>
    \<exists>ms. knight_loop g sq p offs acc = Some ms \<and> (\<forall>m\<in>set ms. pseudo_ok g sq p m)"
proof (induction offs arbitrary: acc)
  case Nil
  then show ?case by simp
next
  case (Cons o' offs)
  obtain dr dc where o': "o' = (dr, dc)" by (cases o')
  let ?nr = "fst sq + dr" and ?nc = "snd sq + dc"
  show ?case
  proof (cases "in_bounds ?nr ?nc \<and> \<not> own g (color p) ?nr ?nc")
    case True
    with assms Cons.prems have "\<forall>m\<in>set (acc @ [(sq, (?nr, ?nc), None)]). pseudo_ok g sq p m"
      by (auto simp: pseudo_ok_plain)
    from Cons.IH [OF this] True assms show ?thesis
      by (auto simp: o' Let_def occupied_by_wf)
  next
    case False
    with Cons.IH [OF Cons.prems] assms show ?thesis
      by (auto simp: o' Let_def occupied_by_wf)
  qed
qed

lemma king_loop_ok:
  assumes "wf_grid g" "kind p \<noteq> Pawn"
  shows "\<forall>m\<in>set acc. pseudo_ok g sq p m \<Longrightarrow>
    \<exists>ms. king_loop g sq p offs acc = Some ms \<and> (\<forall>m\<in>set ms. pseudo_ok g sq p m)"
proof (induction offs arbitrary: acc)
  case Nil
  then show ?case by simp
next
  case (Cons o' offs)
  obtain dr dc where o': "o' = (dr, dc)" by (cases o')
  let ?nr = "fst sq + dr" and ?nc = "snd sq + dc"
  show ?case
  proof (cases "\<not> (dr = 0 \<and> dc = 0) \<and> in_bounds ?nr ?nc \<and> \<not> own g (color p) ?nr ?nc")
    case True
    with assms Cons.prems have "\<forall>m\<in>set (acc @ [(sq, (?nr, ?nc), None)]). pseudo_ok g sq p m"
      by (auto simp: pseudo_ok_plain)
    from Cons.IH [OF this] True assms show ?thesis
      by (auto simp: o' Let_def occupied_by_wf)
  next
    case False
    with Cons.IH [OF Cons.prems] assms show ?thesis
      by (auto simp: o' Let_def occupied_by_wf)
  qed
qed

lemma pawn_captures_ok:
  assumes "wf_grid g" "kind p = Pawn"
  shows "\<forall>m\<in>set acc. pseudo_ok g sq p m \<Longrightarrow>
    \<exists>ms. pawn_captures g sq p dir dcs acc = Some ms \<and> set acc \<subseteq> set ms \<and>
      (\<forall>m\<in>set ms. pseudo_ok g sq p m)"
proof (induction dcs arbitrary: acc)
  case Nil
  then show ?case by simp
next
  case (Cons dc dcs)
  let ?nr = "fst sq + dir" and ?nc = "snd sq + dc"
  show ?case
  proof (cases "in_bounds ?nr ?nc \<and> cell g ?nr ?nc \<noteq> None \<and> \<not> own g (color p) ?nr ?nc")
    case True
    with assms Cons.prems have "\<forall>m\<in>set (acc @ [pawn_move sq ?nr ?nc]). pseudo_ok g sq p m"
      by (auto simp: pseudo_ok_pawn)
    from Cons.IH [OF this] True assms show ?thesis
      by (auto simp: Let_def occupied_by_wf empty_wf)
  next
    case False
    with Cons.IH [OF Cons.prems] assms show ?thesis
      by (auto simp: Let_def occupied_by_wf empty_wf)
  qed
qed

lemma empty_not_own: "cell g r c = None \<Longrightarrow> \<not> own g col r c"
  by (simp add: own_def)

lemma pawn_moves_ok:
  assumes "wf_grid g" "kind p = Pawn"
  shows "\<exists>ms. pawn_moves g sq p = Some ms \<and> (\<forall>m\<in>set ms. pseudo_ok g sq p m) \<and>
    (in_bounds (fst sq + (if color p = White then - 1 else 1)) (snd sq) \<and>
     cell g (fst sq + (if color p = White then - 1 else 1)) (snd sq) = None \<longrightarrow>
     pawn_move sq (fst sq + (if color p = White then - 1 else 1)) (snd sq) \<in> set ms)"
proof -
  define dir :: int where "dir = (if color p = White then - 1 else 1)"
  define start :: int where "start = (if color p = White then 6 else 1)"
  define nr where "nr = fst sq + dir"
  define nr2 where "nr2 = fst sq + 2 * dir"
  define c where "c = snd sq"
  define fwd where "fwd = (in_bounds nr c \<and> cell g nr c = None)"
  define two where "two = (fst sq = start \<and> cell g nr2 c = None)"
  define moves where "moves =
    (if fwd then (if two then [pawn_move sq nr c] @ [(sq, (nr2, c), None)] else [pawn_move sq nr c])
     else [])"
  have pm: "pawn_moves g sq p = do {
      f \<leftarrow> (if in_bounds nr c then empty g nr c else Some False);
      ms \<leftarrow> (if f then do {
               t \<leftarrow> (if fst sq = start then empty g nr2 c else Some False);
               Some (if t then [pawn_move sq nr c] @ [(sq, (nr2, c), None)] else [pawn_move sq nr c])
             } else Some []);
      pawn_captures g sq p dir [- 1, 1] ms
    }"
    by (simp only: pawn_moves_def Let_def dir_def start_def nr_def nr2_def c_def)
  have step2: "in_bounds nr2 c \<and> nr2 \<noteq> 0 \<and> nr2 \<noteq> 7" if "in_bounds nr c" "fst sq = start"
    using that by (auto simp: in_bounds_def nr_def nr2_def dir_def start_def split: if_splits)
  have f: "(if in_bounds nr c then empty g nr c else Some False) = Some fwd"
    using assms(1) by (simp add: fwd_def empty_wf)
  have t: "(if fst sq = start then empty g nr2 c else Some False) = Some two" if fwd
    using that assms(1) step2 by (simp add: two_def fwd_def empty_wf)
  have eq: "pawn_moves g sq p = pawn_captures g sq p dir [- 1, 1] moves"
    unfolding pm f by (cases fwd) (simp_all add: t moves_def del: pawn_captures.simps)
  have "pseudo_ok g sq p (sq, (nr2, c), None)" if "fwd" "two"
    using that assms(2) step2 by (simp add: pseudo_ok_def empty_not_own fwd_def two_def)
  moreover have "pseudo_ok g sq p (pawn_move sq nr c)" if "fwd"
    using that assms(2) by (simp add: pseudo_ok_pawn empty_not_own fwd_def)
  ultimately have "\<forall>m\<in>set moves. pseudo_ok g sq p m"
    by (auto simp: moves_def)
  from pawn_captures_ok [OF assms this] obtain ms where
    ms: "pawn_captures g sq p dir [- 1, 1] moves = Some ms" "set moves \<subseteq> set ms"
      "\<forall>m\<in>set ms. pseudo_ok g sq p m"
    by blast
  have "pawn_move sq nr c \<in> set moves" if fwd
    using that by (simp add: moves_def)
  with ms(2) have "fwd \<longrightarrow> pawn_move sq nr c \<in> set ms" by blast
  with ms(1,3) show ?thesis
    unfolding eq fwd_def nr_def c_def dir_def by blast
qed

lemma ray_left_less:
  "dr \<noteq> 0 \<or> dc \<noteq> 0 \<Longrightarrow> in_bounds nr nc \<Longrightarrow>
   ray_left dr dc (nr + dr) (nc + dc) < ray_left dr dc nr nc"
  by (auto simp: ray_left_def in_bounds_def)

lemma ray_ok:
  assumes "wf_grid g" "kind p \<noteq> Pawn" "dr \<noteq> 0 \<or> dc \<noteq> 0"
  shows "\<forall>m\<in>set acc. pseudo_ok g sq p m \<Longrightarrow>
    \<exists>ms. ray g sq p dr dc nr nc acc = Some ms \<and> (\<forall>m\<in>set ms. pseudo_ok g sq p m)"
proof (induction "ray_left dr dc nr nc" arbitrary: nr nc acc rule: less_induct)
  case less
  show ?case
  proof (cases "in_bounds nr nc")
    case False
    with less.prems show ?thesis by (subst ray.simps) simp
  next
    case inb: True
    show ?thesis
    proof (cases "own g (color p) nr nc")
      case True
      with inb assms less.prems show ?thesis
        by (subst ray.simps) (simp add: occupied_by_wf)
    next
      case False
      with inb assms less.prems
      have acc': "\<forall>m\<in>set (acc @ [(sq, (nr, nc), None)]). pseudo_ok g sq p m"
        by (auto simp: pseudo_ok_plain)
      show ?thesis
      proof (cases "cell g nr nc = None")
        case True
        from less.hyps [OF ray_left_less [OF assms(3) inb] acc'] True False inb assms(1)
        show ?thesis by (subst ray.simps) (simp add: occupied_by_wf empty_wf)
      next
        case nonempty: False
        with acc' False inb assms(1) show ?thesis
          by (subst ray.simps) (simp add: occupied_by_wf empty_wf)
      qed
    qed
  qed
qed

lemma slide_loop_ok:
  assumes "wf_grid g" "kind p \<noteq> Pawn"
  shows "\<forall>(dr, dc)\<in>set dirs. dr \<noteq> 0 \<or> dc \<noteq> 0 \<Longrightarrow> \<forall>m\<in>set acc. pseudo_ok g sq p m \<Longrightarrow>
    \<exists>ms. slide_loop g sq p dirs acc = Some ms \<and> (\<forall>m\<in>set ms. pseudo_ok g sq p m)"
proof (induction dirs arbitrary: acc)
  case Nil
  then show ?case by simp
next
  case (Cons d dirs)
  obtain dr dc where d: "d = (dr, dc)" by (cases d)
  with Cons.prems have nz: "dr \<noteq> 0 \<or> dc \<noteq> 0" and rest: "\<forall>(dr, dc)\<in>set dirs. dr \<noteq> 0 \<or> dc \<noteq> 0"
    by auto
  from ray_ok [OF assms nz Cons.prems(2)] obtain ms where
    ms: "ray g sq p dr dc (fst sq + dr) (snd sq + dc) acc = Some ms" "\<forall>m\<in>set ms. pseudo_ok g sq p m"
    by blast
  from Cons.IH [OF rest ms(2)] ms(1) show ?case by (simp add: d)
qed

lemma directions_nonzero: "\<forall>(dr, dc)\<in>set (directions k). dr \<noteq> 0 \<or> dc \<noteq> 0"
  by (auto simp: directions_def)

lemma generate_pseudo_moves_from_ok:
  assumes "wf_grid g"
  shows "\<exists>ms. generate_pseudo_moves_from g sq p = Some ms \<and> (\<forall>m\<in>set ms. pseudo_ok g sq p m)"
proof (cases "kind p = Pawn")
  case True
  with pawn_moves_ok [OF assms True, of sq] show ?thesis
    by (auto simp: generate_pseudo_moves_from_def)
next
  case False
  have nil: "\<forall>m\<in>set []. pseudo_ok g sq p m" by simp
  from False knight_loop_ok [OF assms False nil] king_loop_ok [OF assms False nil]
    slide_loop_ok [OF assms False directions_nonzero nil]
  show ?thesis
    by (simp add: generate_pseudo_moves_from_def
          del: knight_loop.simps king_loop.simps slide_loop.simps List.product.simps)
qed

subsection \<open>Attack and check detection on the board\<close>

lemma all_squares_iff: "(r, c) \<in> set all_squares \<longleftrightarrow> in_bounds r c"
  by (auto simp: all_squares_def in_bounds_def)

lemma to_eq: "(\<lambda>(_, to, _). to = sq) = (\<lambda>m. fst (snd m) = sq)"
  by auto

lemma attack_scan_wf:
  assumes "wf_grid g"
  shows "\<forall>(r, c)\<in>set sqs. in_bounds r c \<Longrightarrow>
    attack_scan g sq col sqs = Some (list_ex (attacks_from g col sq) sqs)"
proof (induction sqs)
  case Nil
  then show ?case by simp
next
  case (Cons s sqs)
  obtain r c where s: "s = (r, c)" by (cases s)
  with Cons.prems have inb: "in_bounds r c" and rest: "\<forall>(r, c)\<in>set sqs. in_bounds r c" by auto
  note IH = Cons.IH [OF rest]
  show ?case
  proof (cases "cell g r c")
    case None
    with assms inb IH show ?thesis
      by (simp add: s grid_get_wf attacks_from_def)
  next
    case (Some pc)
    from generate_pseudo_moves_from_ok [OF assms] obtain ms where
      ms: "generate_pseudo_moves_from g (r, c) pc = Some ms" by blast
    with Some assms inb IH show ?thesis
      by (simp add: s grid_get_wf attacks_from_def to_eq)
  qed
qed

lemma is_square_attacked_by_wf:
  "wf_grid (grid b) \<Longrightarrow> is_square_attacked_by b sq col = Some (is_attacked (grid b) sq col)"
  unfolding is_square_attacked_by_def is_attacked_def
  by (rule attack_scan_wf) (auto simp: all_squares_iff)

lemma king_scan_wf:
  assumes "wf_grid g"
  shows "\<forall>(r, c)\<in>set sqs. in_bounds r c \<Longrightarrow>
    king_scan g col sqs = Some (find (is_king g col) sqs)"
proof (induction sqs)
  case Nil
  then show ?case by simp
next
  case (Cons s sqs)
  obtain r c where s: "s = (r, c)" by (cases s)
  with Cons.prems have inb: "in_bounds r c" and rest: "\<forall>(r, c)\<in>set sqs. in_bounds r c" by auto
  note IH = Cons.IH [OF rest]
  show ?case
  proof (cases "cell g r c")
    case None
    with assms inb IH show ?thesis
      by (simp add: s grid_get_wf is_king_def)
  next
    case (Some pc)
    with assms inb IH show ?thesis
      by (cases pc) (auto simp: s grid_get_wf is_king_def)
  qed
qed

lemma king_position_wf:
  "wf_grid (grid b) \<Longrightarrow> king_position b col = Some (find (is_king (grid b) col) all_squares)"
  unfolding king_position_def by (rule king_scan_wf) (auto simp: all_squares_iff)

lemma in_check_wf: "wf_grid (grid b) \<Longrightarrow> in_check b col = Some (checked (grid b) col)"
  by (simp add: in_check_def king_position_wf is_square_attacked_by_wf checked_def
        split: option.splits)

subsection \<open>The legality test and the legal moves\<close>

lemma wf_position_after: "wf_grid g \<Longrightarrow> wf_grid (position_after g mv)"
  by (cases mv) (auto simp: position_after_def wf_put)

lemma placed_present:
  "pc \<noteq> None \<Longrightarrow> placed pc promo =
     Some (case promo of None \<Rightarrow> pc | Some k \<Rightarrow> map_option (\<lambda>q. Piece (color q) k) pc)"
  by (auto simp: placed_def split: option.splits)

lemma restore:
  assumes wf: "wf_grid g" and inb: "in_bounds r1 c1" "in_bounds r2 c2"
  shows "put (put (put (put g r2 c2 new) r1 c1 None) r1 c1 (cell g r1 c1)) r2 c2 (cell g r2 c2) = g"
proof (rule grid_ext)
  show "wf_grid g" by fact
  show "wf_grid (put (put (put (put g r2 c2 new) r1 c1 None) r1 c1 (cell g r1 c1)) r2 c2 (cell g r2 c2))"
    using wf by (simp add: wf_put)
next
  fix r c assume "in_bounds r c"
  with wf inb
  show "cell (put (put (put (put g r2 c2 new) r1 c1 None) r1 c1 (cell g r1 c1)) r2 c2 (cell g r2 c2)) r c
      = cell g r c"
    by (simp add: cell_put wf_put)
qed

lemma is_legal_move_wf:
  assumes wf: "wf_grid (grid b)" and valid: "valid_move (grid b) mv"
  shows "is_legal_move b mv col = Some (\<not> checked (position_after (grid b) mv) col, b)"
proof -
  obtain r1 c1 r2 c2 promo where mv: "mv = ((r1, c1), (r2, c2), promo)"
    by (metis prod.exhaust)
  from valid have inb: "in_bounds r1 c1" "in_bounds r2 c2" and pc: "cell (grid b) r1 c1 \<noteq> None"
    by (simp_all add: valid_move_def mv)
  have "wf_grid (position_after (grid b) mv)" using wf by (rule wf_position_after)
  moreover have "b\<lparr>grid := grid b\<rparr> = b" by simp
  ultimately show ?thesis using wf inb
    by (simp add: mv is_legal_move_def grid_get_wf grid_set_wf wf_put in_check_wf restore
          position_after_def placed_present [OF pc])
qed

lemma legal_filter_wf:
  assumes "wf_grid (grid b)"
  shows "\<forall>m\<in>set ms. valid_move (grid b) m \<Longrightarrow>
    legal_filter b col ms acc = Some (acc @ filter (legal (grid b) col) ms, b)"
proof (induction ms arbitrary: acc)
  case Nil
  then show ?case by simp
next
  case (Cons m ms)
  then have "valid_move (grid b) m" and rest: "\<forall>m\<in>set ms. valid_move (grid b) m" by auto
  from is_legal_move_wf [OF assms this(1)] Cons.IH [OF rest] show ?case
    by (simp add: legal_def)
qed

lemma pseudo_ok_valid:
  "pseudo_ok g (r, c) pc m \<Longrightarrow> in_bounds r c \<Longrightarrow> cell g r c = Some pc \<Longrightarrow> valid_move g m"
  by (auto simp: pseudo_ok_def valid_move_def)

lemma legal_scan_wf:
  assumes "wf_grid (grid b)"
  shows "\<forall>(r, c)\<in>set sqs. in_bounds r c \<Longrightarrow>
    legal_scan b col sqs acc = Some (acc @ concat (map (legal_from (grid b) col) sqs), b)"
proof (induction sqs arbitrary: acc)
  case Nil
  then show ?case by simp
next
  case (Cons s sqs)
  obtain r c where s: "s = (r, c)" by (cases s)
  with Cons.prems have inb: "in_bounds r c" and rest: "\<forall>(r, c)\<in>set sqs. in_bounds r c" by auto
  note IH = Cons.IH [OF rest]
  show ?case
  proof (cases "cell (grid b) r c")
    case None
    with assms inb IH show ?thesis
      by (simp add: s grid_get_wf legal_from_def)
  next
    case (Some pc)
    from generate_pseudo_moves_from_ok [OF assms] obtain ms where
      ms: "generate_pseudo_moves_from (grid b) (r, c) pc = Some ms"
        "\<forall>m\<in>set ms. pseudo_ok (grid b) (r, c) pc m" by blast
    with inb Some have "\<forall>m\<in>set ms. valid_move (grid b) m"
      by (auto intro: pseudo_ok_valid)
    from legal_filter_wf [OF assms this] ms(1) Some assms inb IH show ?thesis
      by (simp add: s grid_get_wf legal_from_def)
  qed
qed

lemma generate_legal_moves_wf:
  assumes "wf_grid (grid b)"
  shows "generate_legal_moves b col = Some (legal_moves (grid b) col, b)"
proof -
  have "\<forall>(r, c)\<in>set all_squares. in_bounds r c" by (auto simp: all_squares_iff)
  from legal_scan_wf [OF assms this] show ?thesis
    by (simp add: generate_legal_moves_def legal_moves_def)
qed

lemma legal_moves_sound:
  assumes "wf_grid g" "m \<in> set (legal_moves g col)"
  shows "\<exists>r c pc ms. in_bounds r c \<and> cell g r c = Some pc \<and> color pc = col \<and>
           generate_pseudo_moves_from g (r, c) pc = Some ms \<and> m \<in> set ms \<and>
           pseudo_ok g (r, c) pc m \<and> legal g col m"
proof -
  from assms(2) obtain sq where sq: "sq \<in> set all_squares" and m: "m \<in> set (legal_from g col sq)"
    by (auto simp: legal_moves_def)
  obtain r c where rc: "sq = (r, c)" by (cases sq)
  with sq have inb: "in_bounds r c" by (simp add: all_squares_iff)
  have "cell g r c \<noteq> None"
  proof
    assume "cell g r c = None"
    then have "legal_from g col sq = []" by (simp add: legal_from_def rc)
    with m show False by simp
  qed
  then obtain pc where pc: "cell g r c = Some pc" by auto
  from generate_pseudo_moves_from_ok [OF assms(1), of "(r, c)" pc] obtain ms where
    ms: "generate_pseudo_moves_from g (r, c) pc = Some ms" "\<forall>m\<in>set ms. pseudo_ok g (r, c) pc m"
    by blast
  from pc ms(1) have "legal_from g col sq = (if color pc = col then filter (legal g col) ms else [])"
    by (simp add: legal_from_def rc)
  with m have "color pc = col" "m \<in> set ms" "legal g col m"
    by (auto split: if_splits)
  with inb pc ms show ?thesis by blast
qed

lemma update_game_state_wf:
  assumes "wf_grid (grid b)"
  shows "update_game_state b = Some
     (if game_over b \<noteq> None then b
      else if legal_moves (grid b) (turn b) = [] then
        (if checked (grid b) (turn b)
         then b\<lparr>game_over := Some Checkmate, winner := Some (opponent (turn b))\<rparr>
         else b\<lparr>game_over := Some Stalemate, winner := None\<rparr>)
      else b)"
  using assms by (simp add: update_game_state_def generate_legal_moves_wf in_check_wf)

lemma make_move_wf:
  assumes wf: "wf_grid (grid b)" and valid: "valid_move (grid b) mv"
  shows "make_move b mv = update_game_state (moved b mv)"
proof -
  obtain r1 c1 r2 c2 promo where mv: "mv = ((r1, c1), (r2, c2), promo)"
    by (metis prod.exhaust)
  from valid have inb: "in_bounds r1 c1" "in_bounds r2 c2" and pc: "cell (grid b) r1 c1 \<noteq> None"
    by (simp_all add: valid_move_def mv)
  from wf inb show ?thesis
    by (cases "turn b")
      (simp_all add: mv make_move_def moved_def grid_get_wf grid_set_wf wf_put Let_def
        position_after_def placed_present [OF pc] opponent_def)
qed

lemma grid_update_game_state:
  "wf_grid (grid b) \<Longrightarrow> update_game_state b = Some b' \<Longrightarrow> grid b' = grid b"
  by (auto simp: update_game_state_wf split: if_splits)

lemma make_move_grid:
  assumes wf: "wf_grid (grid b)" and valid: "valid_move (grid b) mv"
  shows "\<exists>b'. make_move b mv = Some b' \<and> grid b' = position_after (grid b) mv"
proof -
  have wf': "wf_grid (grid (moved b mv))"
    using wf by (simp add: moved_def wf_position_after)
  from update_game_state_wf [OF wf'] obtain b' where b': "update_game_state (moved b mv) = Some b'"
    by blast
  from grid_update_game_state [OF wf' b'] have "grid b' = position_after (grid b) mv"
    by (simp add: moved_def)
  with b' make_move_wf [OF wf valid] show ?thesis by simp
qed

subsection \<open>Kings\<close>

lemma distinct_all_squares: "distinct all_squares"
  by (simp add: all_squares_def distinct_product)

lemma is_king_wf: "wf_grid g \<Longrightarrow> in_bounds r c \<Longrightarrow> is_king g col (r, c) \<longleftrightarrow> cell g r c = Some (Piece col King)"
  by (simp add: is_king_def grid_get_wf)

lemma set_kings:
  assumes "wf_grid g"
  shows "set (kings g col) = {(r, c). in_bounds r c \<and> cell g r c = Some (Piece col King)}"
  using assms by (auto simp: kings_def all_squares_iff is_king_wf)

lemma length_kings:
  assumes "wf_grid g"
  shows "length (kings g col) = card {(r, c). in_bounds r c \<and> cell g r c = Some (Piece col King)}"
proof -
  have "distinct (kings g col)" by (simp add: kings_def distinct_all_squares)
  then have "length (kings g col) = card (set (kings g col))" by (simp add: distinct_card)
  with set_kings [OF assms] show ?thesis by simp
qed

lemma cell_position_after:
  assumes "wf_grid g" "in_bounds r1 c1" "in_bounds r2 c2" "in_bounds r c"
  shows "cell (position_after g ((r1, c1), (r2, c2), promo)) r c =
    (if r = r1 \<and> c = c1 then None
     else if r = r2 \<and> c = c2 then
       (case promo of None \<Rightarrow> cell g r1 c1
        | Some k \<Rightarrow> map_option (\<lambda>q. Piece (color q) k) (cell g r1 c1))
     else cell g r c)"
  using assms by (simp add: position_after_def cell_put wf_put)

lemma own_piece: "cell g r c = Some pc \<Longrightarrow> own g (color pc) r c"
  by (simp add: own_def)

lemma kings_after:
  assumes wf: "wf_grid g" and inb: "in_bounds r c" and pc: "cell g r c = Some pc"
    and ok: "pseudo_ok g (r, c) pc m"
    and target: "cell g (fst (fst (snd m))) (snd (fst (snd m))) \<noteq> Some (Piece x King)"
  shows "length (kings (position_after g m) x) = length (kings g x)"
proof -
  from ok obtain r2 c2 promo where m: "m = ((r, c), (r2, c2), promo)"
    and inb2: "in_bounds r2 c2" and notown: "\<not> own g (color pc) r2 c2"
    and promo: "promo = (if kind pc = Pawn \<and> (r2 = 0 \<or> r2 = 7) then Some Queen else None)"
    by (cases m) (auto simp: pseudo_ok_def)
  from notown own_piece [OF pc] have ne: "\<not> (r2 = r \<and> c2 = c)" by auto
  from target have tk: "cell g r2 c2 \<noteq> Some (Piece x King)" by (simp add: m)
  let ?K = "{(r, c). in_bounds r c \<and> cell g r c = Some (Piece x King)}"
  let ?K' = "{(r, c). in_bounds r c \<and> cell (position_after g m) r c = Some (Piece x King)}"
  have fin: "finite ?K"
    by (rule finite_subset [of _ "set all_squares"]) (auto simp: all_squares_iff)
  have new: "(case promo of None \<Rightarrow> cell g r c | Some k \<Rightarrow> map_option (\<lambda>q. Piece (color q) k) (cell g r c))
      = Some (Piece x King) \<longleftrightarrow> pc = Piece x King"
    unfolding pc by (cases pc) (auto simp: promo)
  have cells: "cell (position_after g m) r' c' = Some (Piece x King) \<longleftrightarrow>
      (if r' = r \<and> c' = c then False
       else if r' = r2 \<and> c' = c2 then pc = Piece x King
       else cell g r' c' = Some (Piece x King))" if "in_bounds r' c'" for r' c'
    using ne by (auto simp: m cell_position_after [OF wf inb inb2 that] new)
  have "card ?K' = card ?K"
  proof (cases "pc = Piece x King")
    case True
    with cells inb2 ne have K': "?K' = insert (r2, c2) (?K - {(r, c)})"
      by (auto split: if_splits)
    from True inb pc have old: "(r, c) \<in> ?K" by simp
    from tk have "(r2, c2) \<notin> ?K - {(r, c)}" by simp
    with fin have "card ?K' = Suc (card (?K - {(r, c)}))"
      unfolding K' by simp
    also from card.remove [OF fin old] have "\<dots> = card ?K" by simp
    finally show ?thesis .
  next
    case False
    with cells pc tk have "?K' = ?K"
      by (auto split: if_splits)
    then show ?thesis by simp
  qed
  with wf show ?thesis
    by (simp add: length_kings wf_position_after)
qed

lemma kings_after_own:
  assumes "wf_grid g" "in_bounds r c" "cell g r c = Some pc" "pseudo_ok g (r, c) pc m"
  shows "length (kings (position_after g m) (color pc)) = length (kings g (color pc))"
proof (rule kings_after [OF assms])
  from assms(4) have "\<not> own g (color pc) (fst (fst (snd m))) (snd (fst (snd m)))"
    by (cases m) (auto simp: pseudo_ok_def)
  then show "cell g (fst (fst (snd m))) (snd (fst (snd m))) \<noteq> Some (Piece (color pc) King)"
    by (auto simp: own_def)
qed

subsection \<open>The invariant of play\<close>

lemma in_play_reachable: "in_play b \<Longrightarrow> reachable b"
  by (induction rule: in_play.induct) (auto intro: reachable.intros)

lemma at_most_one: "length xs \<le> 1 \<Longrightarrow> a \<in> set xs \<Longrightarrow> b \<in> set xs \<Longrightarrow> a = b"
  by (cases xs; cases "tl xs") auto

lemma find_king:
  assumes "find (is_king g x) all_squares = Some k"
  shows "k \<in> set (kings g x)"
  using assms by (auto simp: find_Some_iff kings_def)

lemma checked_king:
  assumes "k \<in> set (kings g x)" "length (kings g x) \<le> 1"
  shows "checked g x = is_attacked g k (opponent x)"
proof (cases "find (is_king g x) all_squares")
  case None
  then have "k \<notin> set all_squares \<or> \<not> is_king g x k"
    by (cases k) (simp add: find_None_iff)
  with assms(1) have False by (auto simp: kings_def)
  then show ?thesis ..
next
  case (Some k')
  from find_king [OF Some] assms have "k' = k" by (auto intro: at_most_one)
  with Some show ?thesis by (simp add: checked_def)
qed

lemma checked_no_king: "kings g x = [] \<Longrightarrow> \<not> checked g x"
  by (auto simp: checked_def kings_def filter_empty_conv find_None_iff [THEN iffD2] split: option.splits)

lemma checked_king_attacked:
  assumes "length (kings g x) \<le> 1"
  shows "checked g x = king_attacked g x"
proof (cases "kings g x")
  case Nil
  then have "\<not> king_attacked g x"
    by (auto simp: king_attacked_def kings_def filter_empty_conv list_ex_iff)
  with Nil show ?thesis by (simp add: checked_no_king)
next
  case (Cons k ks)
  then have k: "k \<in> set (kings g x)" by simp
  have "king_attacked g x \<longleftrightarrow> is_attacked g k (opponent x)"
  proof
    assume "king_attacked g x"
    then obtain k' where k': "k' \<in> set (kings g x)" "is_attacked g k' (opponent x)"
      by (auto simp: king_attacked_def kings_def list_ex_iff)
    from at_most_one [OF assms k'(1) k] k'(2) show "is_attacked g k (opponent x)" by simp
  next
    assume "is_attacked g k (opponent x)"
    with k show "king_attacked g x"
      by (auto simp: king_attacked_def kings_def list_ex_iff)
  qed
  with checked_king [OF k assms] show ?thesis by simp
qed

lemma attacked_by_move:
  assumes "wf_grid g" "in_bounds r c" "cell g r c = Some pc"
    "generate_pseudo_moves_from g (r, c) pc = Some ms" "m \<in> set ms"
  shows "is_attacked g (fst (snd m)) (color pc)"
proof -
  from assms have "attacks_from g (color pc) (fst (snd m)) (r, c)"
    by (auto simp: attacks_from_def grid_get_wf list_ex_iff)
  with assms(2) show ?thesis
    by (auto simp: is_attacked_def list_ex_iff all_squares_iff)
qed

lemma opponent_opponent: "opponent (opponent s) = s"
  by (cases s) (simp_all add: opponent_def)

lemma color_cases: "x = s \<or> x = opponent s"
  by (cases x; cases s) (simp_all add: opponent_def)

lemma make_move_result:
  assumes wf: "wf_grid (grid b)" and valid: "valid_move (grid b) mv" and mm: "make_move b mv = Some b'"
  shows "grid b' = position_after (grid b) mv \<and> turn b' = opponent (turn b)"
proof -
  have wf': "wf_grid (grid (moved b mv))"
    using wf by (simp add: moved_def wf_position_after)
  from mm make_move_wf [OF wf valid] have "update_game_state (moved b mv) = Some b'" by simp
  with update_game_state_wf [OF wf'] show ?thesis
    by (cases "turn b") (auto simp: moved_def opponent_def split: if_splits)
qed

lemma kings_after_legal:
  assumes wf: "wf_grid g" and one: "length (kings g x) = 1"
    and safe: "\<not> checked g (opponent s)" and one': "length (kings g (opponent s)) = 1"
    and m: "m \<in> set (legal_moves g s)"
  shows "length (kings (position_after g m) x) = 1"
proof -
  from legal_moves_sound [OF wf m] obtain r c pc ms where
    inb: "in_bounds r c" and pc: "cell g r c = Some pc" "color pc = s"
    and ms: "generate_pseudo_moves_from g (r, c) pc = Some ms" "m \<in> set ms"
    and ok: "pseudo_ok g (r, c) pc m" by blast
  let ?r2 = "fst (fst (snd m))" and ?c2 = "snd (fst (snd m))"
  from ok have inb2: "in_bounds ?r2 ?c2" and notown: "\<not> own g s ?r2 ?c2"
    using pc(2) by (cases m; auto simp: pseudo_ok_def)+
  have "cell g ?r2 ?c2 \<noteq> Some (Piece x King)"
  proof
    assume king: "cell g ?r2 ?c2 = Some (Piece x King)"
    with notown have "x \<noteq> s" by (auto simp: own_def)
    with color_cases [of x s] have x: "x = opponent s" by simp
    from king inb2 wf have "(?r2, ?c2) \<in> set (kings g (opponent s))"
      by (simp add: set_kings x case_prod_beta)
    from checked_king [OF this] one' safe
    have "\<not> is_attacked g (fst (snd m)) s" by (simp add: opponent_opponent)
    with attacked_by_move [OF wf inb pc(1) ms] pc(2) show False by simp
  qed
  from kings_after [OF wf inb pc(1) ok this] one show ?thesis by simp
qed

lemma sound_step:
  assumes "sound b" and gl: "generate_legal_moves b (turn b) = Some (ms, b1)" and m: "m \<in> set ms"
    and mm: "make_move b1 m = Some b'"
  shows "sound b'"
proof -
  from assms(1) have wf: "wf_grid (grid b)" and kw: "length (kings (grid b) White) = 1"
    and kb: "length (kings (grid b) Black) = 1" and safe: "\<not> checked (grid b) (opponent (turn b))"
    by (simp_all add: sound_def)
  from gl generate_legal_moves_wf [OF wf] have b1: "b1 = b" and ms: "ms = legal_moves (grid b) (turn b)"
    by auto
  from m have m': "m \<in> set (legal_moves (grid b) (turn b))" by (simp add: ms)
  from legal_moves_sound [OF wf m'] obtain r c pc where
    "in_bounds r c" "cell (grid b) r c = Some pc" "pseudo_ok (grid b) (r, c) pc m"
    and lg: "legal (grid b) (turn b) m" by blast
  then have valid: "valid_move (grid b) m" by (auto intro: pseudo_ok_valid)
  from make_move_result [OF wf valid] mm have
    g': "grid b' = position_after (grid b) m" and t': "turn b' = opponent (turn b)"
    by (simp_all add: b1)
  have ko: "length (kings (grid b) (opponent (turn b))) = 1"
    using kw kb by (cases "turn b") (simp_all add: opponent_def)
  from kings_after_legal [OF wf _ safe ko m'] kw kb lg wf show ?thesis
    by (simp add: sound_def g' t' opponent_opponent legal_def wf_position_after)
qed

lemma sound_start: "sound start_board"
  unfolding sound_def by (intro conjI wf_start; code_simp)

lemma sound_reachable: "reachable b \<Longrightarrow> sound b"
proof (induction rule: reachable.induct)
  case (start b)
  then show ?case by (simp add: Board_init_start sound_start [simplified])
next
  case (step b ms b1 m b')
  then show ?case by (blast intro: sound_step)
qed

subsection \<open>The example positions\<close>

lemma play_in_play: "in_play b \<Longrightarrow> play b ms = Some b' \<Longrightarrow> in_play b'"
proof (induction ms arbitrary: b)
  case Nil
  then show ?case by simp
next
  case (Cons m ms)
  from Cons.prems(2) obtain legal b1 b2 where
    "game_over b = None" "generate_legal_moves b (turn b) = Some (legal, b1)" "m \<in> set legal"
    "make_move b1 m = Some b2" "play b2 ms = Some b'"
    by (auto split: if_splits Option.bind_splits)
  with Cons.prems(1) Cons.IH show ?case
    by (blast intro: in_play.ply)
qed

lemma start_legal_moves: "generate_legal_moves start_board White = Some (start_moves, start_board)"
  by code_simp

lemma length_start_moves: "length start_moves = 20"
  by code_simp

lemma play_fools_mate:
  "map_option (\<lambda>b. (grid b, turn b, fullmove_number b, game_over b, winner b)) (play start_board fools_mate)
     = Some (grid mate_board, White, 3, Some Checkmate, Some Black)"
  by code_simp

lemma wf_fixtures: "wf_grid (grid mate_board)" "wf_grid (grid stalemate_board)"
  "wf_grid (grid promotion_board)" "wf_grid (grid kingless_board)"
  by code_simp+

lemma mate_board_facts: "legal_moves (grid mate_board) White = []" "checked (grid mate_board) White"
  by code_simp+

lemma stalemate_board_facts:
  "legal_moves (grid stalemate_board) White = []" "\<not> checked (grid stalemate_board) White"
  by code_simp+

lemma two_kings_first_tested:
  "kings (grid two_kings_board) White = [(5, 0), (7, 7)] \<and>
   is_legal_move two_kings_board ((5, 0), (4, 0), None) White = Some (True, two_kings_board) \<and>
   king_attacked (position_after (grid two_kings_board) ((5, 0), (4, 0), None)) White"
  by code_simp

lemma outcome_inv_update:
  assumes "update_game_state b = Some b'" "winner b \<noteq> None \<longleftrightarrow> game_over b = Some Checkmate"
  shows "winner b' \<noteq> None \<longleftrightarrow> game_over b' = Some Checkmate"
proof (cases "game_over b = None")
  case False
  with assms show ?thesis by (simp add: update_game_state_def)
next
  case True
  with assms(1) obtain legal b1 where
    1: "generate_legal_moves b (turn b) = Some (legal, b1)" and
    2: "b' = b1 \<or> b' = b1\<lparr>game_over := Some Checkmate, winner := Some (opponent (turn b))\<rparr>
          \<or> b' = b1\<lparr>game_over := Some Stalemate, winner := None\<rparr>"
    by (auto simp: update_game_state_def Let_def split: Option.bind_splits if_splits)
  from 1 legal_scan_frame obtain g where "b1 = b\<lparr>grid := g\<rparr>"
    unfolding generate_legal_moves_def by blast
  with 2 assms(2) show ?thesis by auto
qed

lemma outcome_inv_move:
  assumes "make_move b mv = Some b'" "winner b \<noteq> None \<longleftrightarrow> game_over b = Some Checkmate"
  shows "winner b' \<noteq> None \<longleftrightarrow> game_over b' = Some Checkmate"
proof -
  obtain r1 c1 r2 c2 promo where mv: "mv = ((r1, c1), (r2, c2), promo)"
    by (metis prod.exhaust)
  from assms(1) obtain b2 where "update_game_state b2 = Some b'"
    "winner b2 = winner b" "game_over b2 = game_over b"
    unfolding mv make_move_def by (auto simp: Let_def split: Option.bind_splits if_splits)
  with outcome_inv_update [of b2 b'] assms(2) show ?thesis by simp
qed

lemma generate_legal_moves_frame:
  assumes "generate_legal_moves b col = Some (ms, b1)"
  shows "winner b1 = winner b \<and> game_over b1 = game_over b"
proof -
  from assms legal_scan_frame obtain g where "b1 = b\<lparr>grid := g\<rparr>"
    unfolding generate_legal_moves_def by blast
  then show ?thesis by simp
qed

section \<open>The claims\<close>

text \<open>
  \<^bold>\<open>Claim C1.\<close> On every board (a grid of eight rows of eight cells) and for every side
  \<open>s\<close>, \<^verbatim>\<open>generate_legal_moves\<close> returns a list of moves and leaves the board as it
  was; for every move \<open>m\<close> of that list \<^verbatim>\<open>make_move\<close> returns, and on the board it
  leaves \<^verbatim>\<open>in_check(s)\<close> answers \<^verbatim>\<open>False\<close>: a legal move never leaves the mover's
  own King attacked.
\<close>

theorem legal_moves_no_self_check:
  assumes "wf_grid (grid b)"
  shows "\<exists>ms. generate_legal_moves b s = Some (ms, b) \<and>
    (\<forall>m\<in>set ms. \<exists>b'. make_move b m = Some b' \<and> in_check b' s = Some False)"
proof -
  have "\<exists>b'. make_move b m = Some b' \<and> in_check b' s = Some False"
    if m: "m \<in> set (legal_moves (grid b) s)" for m
  proof -
    from legal_moves_sound [OF assms m] obtain r c pc where
      "in_bounds r c" "cell (grid b) r c = Some pc" "pseudo_ok (grid b) (r, c) pc m"
      and lg: "legal (grid b) s m" by blast
    then have "valid_move (grid b) m" by (auto intro: pseudo_ok_valid)
    from make_move_grid [OF assms this] obtain b' where
      b': "make_move b m = Some b'" "grid b' = position_after (grid b) m" by blast
    with assms have "wf_grid (grid b')" by (simp add: wf_position_after)
    from in_check_wf [OF this] b' lg have "in_check b' s = Some False"
      by (simp add: legal_def)
    with b' show ?thesis by blast
  qed
  with generate_legal_moves_wf [OF assms] show ?thesis by auto
qed

theorem legal_moves_no_self_check_witness:
  "wf_grid (grid start_board) \<and>
   generate_legal_moves start_board White = Some (start_moves, start_board) \<and>
   ((6, 4), (4, 4), None) \<in> set start_moves \<and>
   (\<exists>b'. make_move start_board ((6, 4), (4, 4), None) = Some b' \<and> in_check b' White = Some False)"
proof -
  from legal_moves_no_self_check [OF wf_start, of White] start_legal_moves
  have all: "\<forall>m\<in>set start_moves. \<exists>b'. make_move start_board m = Some b' \<and> in_check b' White = Some False"
    by simp
  have m: "((6, 4), (4, 4), None) \<in> set start_moves" by code_simp
  with all have "\<exists>b'. make_move start_board ((6, 4), (4, 4), None) = Some b' \<and> in_check b' White = Some False"
    by blast
  with m wf_start start_legal_moves show ?thesis by simp
qed

text \<open>
  \<^bold>\<open>Claim C2.\<close> Let \<open>m\<close> be a pseudo-move generated for the piece of side \<open>s\<close> that
  stands on the square \<open>(r, c)\<close> of the board. Then \<^verbatim>\<open>is_legal_move\<close> returns, with the
  board as it was, and its answer is true if and only if \<^verbatim>\<open>in_check(s)\<close> is false in
  the position obtained by applying \<open>m\<close> (\<open>position_after\<close>: the moved piece, or a new
  piece of the promotion role, on the to-square and the from-square cleared). "The King of
  \<open>s\<close> is attacked" is what \<^verbatim>\<open>in_check\<close> computes; where \<open>s\<close> has at most one King, as
  the data model of the specification asks, this is the same as \<open>king_attacked\<close>, which
  names no order of search: some King of \<open>s\<close> stands on a square that a pseudo-move of an
  opposing piece ends on. (With several Kings of \<open>s\<close>, \<^verbatim>\<open>king_position\<close> returns the first
  one in row-major order and only that one is tested.)
\<close>

theorem is_legal_move_king_safe:
  assumes wf: "wf_grid (grid b)" and inb: "in_bounds r c"
    and pc: "grid_get (grid b) r c = Some (Some pc)" "color pc = s"
    and ms: "generate_pseudo_moves_from (grid b) (r, c) pc = Some ms" "m \<in> set ms"
  shows "\<exists>chk. in_check (b\<lparr>grid := position_after (grid b) m\<rparr>) s = Some chk \<and>
    is_legal_move b m s = Some (\<not> chk, b) \<and>
    (length (kings (grid b) s) \<le> 1 \<longrightarrow> chk = king_attacked (position_after (grid b) m) s)"
proof -
  let ?g' = "position_after (grid b) m"
  from pc(1) wf inb have cell: "cell (grid b) r c = Some pc" by (simp add: grid_get_wf)
  from generate_pseudo_moves_from_ok [OF wf, of "(r, c)" pc] ms
  have ok: "pseudo_ok (grid b) (r, c) pc m" by auto
  from pseudo_ok_valid [OF ok inb cell] have valid: "valid_move (grid b) m" .
  have wf': "wf_grid (grid (b\<lparr>grid := ?g'\<rparr>))" using wf by (simp add: wf_position_after)
  from in_check_wf [OF wf'] have 1: "in_check (b\<lparr>grid := ?g'\<rparr>) s = Some (checked ?g' s)" by simp
  from is_legal_move_wf [OF wf valid] have 2: "is_legal_move b m s = Some (\<not> checked ?g' s, b)" .
  have 3: "checked ?g' s = king_attacked ?g' s" if "length (kings (grid b) s) \<le> 1"
  proof -
    from kings_after_own [OF wf inb cell ok] that pc(2) have "length (kings ?g' s) \<le> 1" by simp
    then show ?thesis by (rule checked_king_attacked)
  qed
  from 1 2 3 show ?thesis by blast
qed

theorem is_legal_move_king_safe_witness:
  "wf_grid (grid pin_board) \<and> in_bounds 6 4 \<and>
   grid_get (grid pin_board) 6 4 = Some (Some (Piece White Bishop)) \<and>
   length (kings (grid pin_board) White) \<le> 1 \<and>
   is_legal_move pin_board ((6, 4), (5, 3), None) White = Some (False, pin_board) \<and>
   king_attacked (position_after (grid pin_board) ((6, 4), (5, 3), None)) White \<and>
   is_legal_move start_board ((6, 4), (4, 4), None) White = Some (True, start_board) \<and>
   \<not> king_attacked (position_after (grid start_board) ((6, 4), (4, 4), None)) White"
proof -
  have wf: "wf_grid (grid pin_board)" by code_simp
  have inb: "in_bounds 6 4" by (simp add: in_bounds_def)
  have pc: "grid_get (grid pin_board) 6 4 = Some (Some (Piece White Bishop))" by code_simp
  have ms: "generate_pseudo_moves_from (grid pin_board) (6, 4) (Piece White Bishop) =
      Some [((6, 4), (5, 3), None), ((6, 4), (4, 2), None), ((6, 4), (3, 1), None), ((6, 4), (2, 0), None),
            ((6, 4), (5, 5), None), ((6, 4), (4, 6), None), ((6, 4), (3, 7), None),
            ((6, 4), (7, 3), None), ((6, 4), (7, 5), None)]"
    by code_simp
  have k: "length (kings (grid pin_board) White) \<le> 1" by code_simp
  have a: "king_attacked (position_after (grid pin_board) ((6, 4), (5, 3), None)) White" by code_simp
  from is_legal_move_king_safe [OF wf inb pc _ ms, of White "((6, 4), (5, 3), None)"] k a
  have 1: "is_legal_move pin_board ((6, 4), (5, 3), None) White = Some (False, pin_board)"
    by auto
  have pc': "grid_get (grid start_board) 6 4 = Some (Some (Piece White Pawn))" by code_simp
  have ms': "generate_pseudo_moves_from (grid start_board) (6, 4) (Piece White Pawn) =
      Some [((6, 4), (5, 4), None), ((6, 4), (4, 4), None)]"
    by code_simp
  have k': "length (kings (grid start_board) White) \<le> 1" by code_simp
  have a': "\<not> king_attacked (position_after (grid start_board) ((6, 4), (4, 4), None)) White" by code_simp
  from is_legal_move_king_safe [OF wf_start inb pc' _ ms', of White "((6, 4), (4, 4), None)"] k' a'
  have 2: "is_legal_move start_board ((6, 4), (4, 4), None) White = Some (True, start_board)"
    by auto
  from wf inb pc k a 1 2 a' show ?thesis by simp
qed

text \<open>
  \<^bold>\<open>Claim C3.\<close> On a board whose \<^verbatim>\<open>game_over\<close> is \<^verbatim>\<open>None\<close>,
  \<^verbatim>\<open>update_game_state\<close> returns, and with \<open>legal\<close> the list that
  \<^verbatim>\<open>generate_legal_moves\<close> returns for the side to move and \<open>chk\<close> the answer of
  \<^verbatim>\<open>in_check\<close> for that side: no legal move and check give \<^verbatim>\<open>game_over = 'checkmate'\<close>
  and the other side as winner; no legal move and no check give
  \<^verbatim>\<open>game_over = 'stalemate'\<close> and \<^verbatim>\<open>winner = None\<close>; otherwise the board is left as it
  was (\<^verbatim>\<open>game_over\<close> still \<^verbatim>\<open>None\<close>, \<^verbatim>\<open>winner\<close> unchanged). The witness runs the three
  cases: the fool's mate position, the stalemate position of the specification and the
  start position.
\<close>

theorem update_game_state_outcome:
  assumes "wf_grid (grid b)" "game_over b = None"
  shows "\<exists>legal chk. generate_legal_moves b (turn b) = Some (legal, b) \<and>
    in_check b (turn b) = Some chk \<and>
    update_game_state b = Some
      (if legal = [] \<and> chk
       then b\<lparr>game_over := Some Checkmate, winner := Some (opponent (turn b))\<rparr>
       else if legal = [] then b\<lparr>game_over := Some Stalemate, winner := None\<rparr>
       else b)"
proof -
  let ?legal = "legal_moves (grid b) (turn b)" and ?chk = "checked (grid b) (turn b)"
  have "generate_legal_moves b (turn b) = Some (?legal, b)"
    using assms(1) by (rule generate_legal_moves_wf)
  moreover have "in_check b (turn b) = Some ?chk"
    using assms(1) by (rule in_check_wf)
  moreover have "update_game_state b = Some
      (if ?legal = [] \<and> ?chk
       then b\<lparr>game_over := Some Checkmate, winner := Some (opponent (turn b))\<rparr>
       else if ?legal = [] then b\<lparr>game_over := Some Stalemate, winner := None\<rparr>
       else b)"
    using assms by (simp add: update_game_state_wf)
  ultimately show ?thesis by blast
qed

theorem update_game_state_outcome_witness:
  "update_game_state mate_board = Some (mate_board\<lparr>game_over := Some Checkmate, winner := Some Black\<rparr>) \<and>
   update_game_state stalemate_board = Some (stalemate_board\<lparr>game_over := Some Stalemate, winner := None\<rparr>) \<and>
   update_game_state start_board = Some start_board"
proof -
  have g: "game_over mate_board = None" "game_over stalemate_board = None" "game_over start_board = None"
    and t: "turn mate_board = White" "turn stalemate_board = White" "turn start_board = White"
    by (simp_all add: mate_board_def stalemate_board_def start_board_def board_of_def)
  from update_game_state_outcome [OF wf_fixtures(1) g(1)]
    generate_legal_moves_wf [OF wf_fixtures(1), of White] in_check_wf [OF wf_fixtures(1), of White]
    mate_board_facts
  have 1: "update_game_state mate_board = Some (mate_board\<lparr>game_over := Some Checkmate, winner := Some Black\<rparr>)"
    by (auto simp: t opponent_def)
  from update_game_state_outcome [OF wf_fixtures(2) g(2)]
    generate_legal_moves_wf [OF wf_fixtures(2), of White] in_check_wf [OF wf_fixtures(2), of White]
    stalemate_board_facts
  have 2: "update_game_state stalemate_board = Some (stalemate_board\<lparr>game_over := Some Stalemate, winner := None\<rparr>)"
    by (auto simp: t)
  have "start_moves \<noteq> []" by (simp add: start_moves_def)
  with update_game_state_outcome [OF wf_start g(3)] start_legal_moves
  have 3: "update_game_state start_board = Some start_board"
    by (auto simp: t)
  from 1 2 3 show ?thesis by simp
qed

text \<open>
  \<^bold>\<open>Claim C4.\<close> \<^verbatim>\<open>Board()\<close> is the standard start position with White to move, and
  there \<^verbatim>\<open>generate_legal_moves\<close> returns for White exactly the 20 moves of
  \<open>start_moves\<close>: for each of the eight pawns its single step and its double step (the first
  16 moves, all from squares holding a White Pawn), then the four knight moves.
\<close>

theorem start_position_moves:
  "Board_init = Some start_board \<and>
   generate_legal_moves start_board White = Some (start_moves, start_board) \<and>
   length start_moves = 20 \<and>
   list_all (\<lambda>(from, _, _). grid_get (grid start_board) (fst from) (snd from) = Some (Some (Piece White Pawn)))
     (take 16 start_moves) \<and>
   list_all (\<lambda>(from, _, _). grid_get (grid start_board) (fst from) (snd from) = Some (Some (Piece White Knight)))
     (drop 16 start_moves)"
proof -
  have "list_all (\<lambda>(from, _, _). grid_get (grid start_board) (fst from) (snd from) = Some (Some (Piece White Pawn)))
     (take 16 start_moves)"
    by code_simp
  moreover have "list_all (\<lambda>(from, _, _). grid_get (grid start_board) (fst from) (snd from) = Some (Some (Piece White Knight)))
     (drop 16 start_moves)"
    by code_simp
  ultimately show ?thesis
    using Board_init_start start_legal_moves length_start_moves by simp
qed

text \<open>
  \<^bold>\<open>Claim C5.\<close> Every board reached from \<^verbatim>\<open>Board()\<close> by applying \<^verbatim>\<open>make_move\<close>, while
  \<^verbatim>\<open>game_over\<close> is \<^verbatim>\<open>None\<close>, to a move that \<^verbatim>\<open>generate_legal_moves\<close> returned for the
  side to move has exactly one King of each colour on its grid. The proof carries the
  invariant \<open>sound\<close>: the side that has just moved is not in check, so no pseudo-move of
  the side to move ends on the opposing King; no pseudo-move ends on a piece of its own
  side; and a promotion builds a Queen.
\<close>

theorem one_king_each:
  assumes "in_play b"
  shows "length (kings (grid b) White) = 1 \<and> length (kings (grid b) Black) = 1"
proof -
  from assms have "reachable b" by (rule in_play_reachable)
  then have "sound b" by (rule sound_reachable)
  then show ?thesis by (simp add: sound_def)
qed

theorem one_king_each_witness:
  "\<exists>b. in_play b \<and> grid b = grid mate_board \<and>
       length (kings (grid b) White) = 1 \<and> length (kings (grid b) Black) = 1"
proof -
  from play_fools_mate obtain b where b: "play start_board fools_mate = Some b"
    "grid b = grid mate_board"
    by auto
  have "in_play start_board" by (rule in_play.new_game) (rule Board_init_start)
  from play_in_play [OF this b(1)] have r: "in_play b" .
  from one_king_each [OF r] r b(2) show ?thesis by blast
qed

text \<open>
  \<^bold>\<open>Claim C6.\<close> For a move between two squares of the board whose from-square holds a
  piece, \<^verbatim>\<open>is_legal_move\<close> returns and leaves the board exactly as it was: the grid, the
  side to move, the counters, \<^verbatim>\<open>game_over\<close> and \<^verbatim>\<open>winner\<close>. Every pseudo-move is such a
  move (lemma \<open>pseudo_ok_valid\<close>); that the two squares differ is not needed, since both old
  contents are read before the first write.
\<close>

theorem is_legal_move_restores:
  assumes wf: "wf_grid (grid b)" and inb: "in_bounds r1 c1" "in_bounds r2 c2"
    and pc: "grid_get (grid b) r1 c1 = Some (Some pc)"
  shows "\<exists>ok. is_legal_move b ((r1, c1), (r2, c2), promo) s = Some (ok, b)"
proof -
  from pc wf inb(1) have "cell (grid b) r1 c1 = Some pc" by (simp add: grid_get_wf)
  with inb have "valid_move (grid b) ((r1, c1), (r2, c2), promo)" by (simp add: valid_move_def)
  from is_legal_move_wf [OF wf this] show ?thesis by blast
qed

theorem is_legal_move_restores_witness:
  "wf_grid (grid pin_board) \<and> in_bounds 6 4 \<and> in_bounds 5 3 \<and>
   grid_get (grid pin_board) 6 4 = Some (Some (Piece White Bishop)) \<and>
   is_legal_move pin_board ((6, 4), (5, 3), None) White = Some (False, pin_board)"
proof -
  have wf: "wf_grid (grid pin_board)" by code_simp
  have inb: "in_bounds 6 4" "in_bounds 5 3" by (simp_all add: in_bounds_def)
  have pc: "grid_get (grid pin_board) 6 4 = Some (Some (Piece White Bishop))" by code_simp
  have "map_option fst (is_legal_move pin_board ((6, 4), (5, 3), None) White) = Some False"
    by code_simp
  with is_legal_move_restores [OF wf inb pc, of None White]
  have "is_legal_move pin_board ((6, 4), (5, 3), None) White = Some (False, pin_board)"
    by auto
  with wf inb pc show ?thesis by simp
qed

text \<open>
  \<^bold>\<open>Claim C7.\<close> Pseudo-move generation returns for a pawn, and each move it returns
  carries the promotion \<^verbatim>\<open>'Q'\<close> if its destination is on row 0 or row 7 and no promotion
  otherwise. In particular, with a White Pawn on e7 (row 1, column 4) and e8 (row 0,
  column 4) empty, the move e7-e8 with promotion to a Queen is generated, \<^verbatim>\<open>make_move\<close>
  returns on it, and afterwards a White Queen stands on e8.
\<close>

theorem pawn_promotion:
  assumes wf: "wf_grid (grid b)"
  shows "(\<forall>sq p. kind p = Pawn \<longrightarrow>
            (\<exists>ms. generate_pseudo_moves_from (grid b) sq p = Some ms \<and>
               (\<forall>(from, (nr, nc), promo)\<in>set ms.
                   promo = (if nr = 0 \<or> nr = 7 then Some Queen else None)))) \<and>
         (grid_get (grid b) 1 4 = Some (Some (Piece White Pawn)) \<longrightarrow>
          grid_get (grid b) 0 4 = Some None \<longrightarrow>
            (\<exists>ms b'. generate_pseudo_moves_from (grid b) (1, 4) (Piece White Pawn) = Some ms \<and>
               ((1, 4), (0, 4), Some Queen) \<in> set ms \<and>
               make_move b ((1, 4), (0, 4), Some Queen) = Some b' \<and>
               grid_get (grid b') 0 4 = Some (Some (Piece White Queen))))"
proof (intro conjI allI impI)
  fix sq p assume p: "kind p = Pawn"
  from generate_pseudo_moves_from_ok [OF wf, of sq p] obtain ms where
    ms: "generate_pseudo_moves_from (grid b) sq p = Some ms" "\<forall>m\<in>set ms. pseudo_ok (grid b) sq p m"
    by blast
  from ms(2) p have "\<forall>(from, (nr, nc), promo)\<in>set ms. promo = (if nr = 0 \<or> nr = 7 then Some Queen else None)"
    by (auto simp: pseudo_ok_def)
  with ms(1) show "\<exists>ms. generate_pseudo_moves_from (grid b) sq p = Some ms \<and>
      (\<forall>(from, (nr, nc), promo)\<in>set ms. promo = (if nr = 0 \<or> nr = 7 then Some Queen else None))"
    by blast
next
  assume e7: "grid_get (grid b) 1 4 = Some (Some (Piece White Pawn))"
    and e8: "grid_get (grid b) 0 4 = Some None"
  have inb: "in_bounds 1 4" "in_bounds 0 4" by (simp_all add: in_bounds_def)
  from e7 e8 wf inb have cells: "cell (grid b) 1 4 = Some (Piece White Pawn)" "cell (grid b) 0 4 = None"
    by (simp_all add: grid_get_wf)
  let ?m = "((1, 4), (0, 4), Some Queen)"
  from pawn_moves_ok [OF wf, of "Piece White Pawn" "(1, 4)"] inb cells obtain ms where
    ms: "generate_pseudo_moves_from (grid b) (1, 4) (Piece White Pawn) = Some ms" "?m \<in> set ms"
    by (auto simp: generate_pseudo_moves_from_def pawn_move_def)
  from inb cells have valid: "valid_move (grid b) ?m" by (simp add: valid_move_def)
  from make_move_grid [OF wf valid] obtain b' where
    b': "make_move b ?m = Some b'" "grid b' = position_after (grid b) ?m" by blast
  from wf have "wf_grid (grid b')" by (simp add: b' wf_position_after)
  with inb wf cells have "grid_get (grid b') 0 4 = Some (Some (Piece White Queen))"
    by (simp add: grid_get_wf b' cell_position_after)
  with ms b' show "\<exists>ms b'. generate_pseudo_moves_from (grid b) (1, 4) (Piece White Pawn) = Some ms \<and>
      ?m \<in> set ms \<and> make_move b ?m = Some b' \<and>
      grid_get (grid b') 0 4 = Some (Some (Piece White Queen))"
    by blast
qed

theorem pawn_promotion_witness:
  "wf_grid (grid promotion_board) \<and>
   grid_get (grid promotion_board) 1 4 = Some (Some (Piece White Pawn)) \<and>
   grid_get (grid promotion_board) 0 4 = Some None \<and>
   generate_pseudo_moves_from (grid promotion_board) (1, 4) (Piece White Pawn)
     = Some [((1, 4), (0, 4), Some Queen)] \<and>
   (\<exists>b'. make_move promotion_board ((1, 4), (0, 4), Some Queen) = Some b' \<and>
      grid_get (grid b') 0 4 = Some (Some (Piece White Queen)))"
proof -
  have wf: "wf_grid (grid promotion_board)" by (rule wf_fixtures)
  have e7: "grid_get (grid promotion_board) 1 4 = Some (Some (Piece White Pawn))" by code_simp
  have e8: "grid_get (grid promotion_board) 0 4 = Some None" by code_simp
  have ms: "generate_pseudo_moves_from (grid promotion_board) (1, 4) (Piece White Pawn)
     = Some [((1, 4), (0, 4), Some Queen)]" by code_simp
  from pawn_promotion [OF wf] e7 e8
  have "\<exists>b'. make_move promotion_board ((1, 4), (0, 4), Some Queen) = Some b' \<and>
      grid_get (grid b') 0 4 = Some (Some (Piece White Queen))"
    by blast
  with wf e7 e8 ms show ?thesis by simp
qed

text \<open>
  \<^bold>\<open>Claim C8.\<close> Whenever \<^verbatim>\<open>make_move\<close> returns, the side to move is the opposite of the
  side to move before the call, and \<^verbatim>\<open>fullmove_number\<close> has grown by one if that side was
  Black and is unchanged if it was White. The side is \<^verbatim>\<open>self.turn\<close>, whatever the colour
  of the piece moved. And \<^verbatim>\<open>make_move\<close> does return for every move between two squares
  of the board whose from-square holds a piece.
\<close>

theorem make_move_turn:
  "(make_move b mv = Some b' \<longrightarrow>
      turn b' = opponent (turn b) \<and>
      fullmove_number b' = (if turn b = Black then fullmove_number b + 1 else fullmove_number b)) \<and>
   (wf_grid (grid b) \<longrightarrow> valid_move (grid b) mv \<longrightarrow> make_move b mv \<noteq> None)"
proof (intro conjI impI)
  assume mm: "make_move b mv = Some b'"
  obtain r1 c1 r2 c2 promo where mv: "mv = ((r1, c1), (r2, c2), promo)"
    by (metis prod.exhaust)
  from mm obtain g2 where
    "update_game_state
       (if opponent (turn b) = White
        then b\<lparr>grid := g2, turn := opponent (turn b), fullmove_number := fullmove_number b + 1\<rparr>
        else b\<lparr>grid := g2, turn := opponent (turn b)\<rparr>) = Some b'"
    unfolding mv make_move_def by (auto simp: Let_def split: Option.bind_splits if_splits)
  from update_game_state_turn [OF this] show "turn b' = opponent (turn b)"
    and "fullmove_number b' = (if turn b = Black then fullmove_number b + 1 else fullmove_number b)"
    by (cases "turn b"; auto simp: opponent_def)+
next
  assume "wf_grid (grid b)" "valid_move (grid b) mv"
  from make_move_grid [OF this] show "make_move b mv \<noteq> None" by auto
qed

theorem make_move_turn_witness:
  "(\<exists>b'. make_move start_board ((6, 4), (4, 4), None) = Some b' \<and> turn b' = Black \<and>
      fullmove_number b' = 1) \<and>
   (\<exists>b'. make_move black_reply_board ((1, 4), (3, 4), None) = Some b' \<and> turn b' = White \<and>
      fullmove_number b' = 2)"
proof -
  have wf: "wf_grid (grid start_board)" "wf_grid (grid black_reply_board)" by code_simp+
  have valid: "valid_move (grid start_board) ((6, 4), (4, 4), None)"
    "valid_move (grid black_reply_board) ((1, 4), (3, 4), None)" by code_simp+
  from make_move_turn [of start_board "((6, 4), (4, 4), None)"] wf(1) valid(1)
  obtain b1 where b1: "make_move start_board ((6, 4), (4, 4), None) = Some b1" by auto
  from make_move_turn [of start_board "((6, 4), (4, 4), None)" b1] b1
  have "turn b1 = Black \<and> fullmove_number b1 = 1"
    by (simp add: start_board_def opponent_def)
  with b1 have 1: "\<exists>b'. make_move start_board ((6, 4), (4, 4), None) = Some b' \<and> turn b' = Black \<and>
      fullmove_number b' = 1" by blast
  from make_move_turn [of black_reply_board "((1, 4), (3, 4), None)"] wf(2) valid(2)
  obtain b2 where b2: "make_move black_reply_board ((1, 4), (3, 4), None) = Some b2" by auto
  from make_move_turn [of black_reply_board "((1, 4), (3, 4), None)" b2] b2
  have "turn b2 = White \<and> fullmove_number b2 = 2"
    by (simp add: black_reply_board_def start_board_def opponent_def)
  with b2 have 2: "\<exists>b'. make_move black_reply_board ((1, 4), (3, 4), None) = Some b' \<and> turn b' = White \<and>
      fullmove_number b' = 2" by blast
  from 1 2 show ?thesis by simp
qed

text \<open>
  \<^bold>\<open>Claim C9.\<close> On \<^verbatim>\<open>Board()\<close> and on every board reached from it by \<^verbatim>\<open>make_move\<close> with
  moves that \<^verbatim>\<open>generate_legal_moves\<close> returned for the side to move, \<^verbatim>\<open>winner\<close> is set if
  and only if \<^verbatim>\<open>game_over\<close> is \<^verbatim>\<open>'checkmate'\<close>. The witness is the board after the fool's
  mate 1. f3 e5 2. g4 Qh4.
\<close>

theorem winner_iff_checkmate:
  assumes "reachable b"
  shows "winner b \<noteq> None \<longleftrightarrow> game_over b = Some Checkmate"
  using assms
proof (induction rule: reachable.induct)
  case (start b)
  then have "b = start_board" by (simp add: Board_init_start)
  then show ?case by (simp add: start_board_def)
next
  case (step b ms b1 m b')
  from generate_legal_moves_frame [OF step.hyps(2)] step.IH
  have "winner b1 \<noteq> None \<longleftrightarrow> game_over b1 = Some Checkmate" by simp
  with step.hyps(4) show ?case by (rule outcome_inv_move)
qed

theorem winner_iff_checkmate_witness:
  "\<exists>b. reachable b \<and> grid b = grid mate_board \<and> game_over b = Some Checkmate \<and> winner b \<noteq> None"
proof -
  from play_fools_mate obtain b where b: "play start_board fools_mate = Some b"
    "grid b = grid mate_board" "game_over b = Some Checkmate"
    by auto
  have "in_play start_board" by (rule in_play.new_game) (rule Board_init_start)
  from play_in_play [OF this b(1)] have r: "reachable b" by (rule in_play_reachable)
  from winner_iff_checkmate [OF r] b(3) have "winner b \<noteq> None" by simp
  with r b show ?thesis by blast
qed

text \<open>
  \<^bold>\<open>Claim C10.\<close> On a board where no square holds a King of colour \<open>s\<close>,
  \<^verbatim>\<open>king_position\<close> returns \<^verbatim>\<open>None\<close> and \<^verbatim>\<open>in_check\<close> returns \<^verbatim>\<open>False\<close>; neither raises.
\<close>

theorem in_check_without_king:
  assumes "wf_grid (grid b)" "kings (grid b) s = []"
  shows "king_position b s = Some None \<and> in_check b s = Some False"
proof -
  from assms(2) have "find (is_king (grid b) s) all_squares = None"
    by (simp add: kings_def filter_empty_conv find_None_iff)
  with king_position_wf [OF assms(1)] have "king_position b s = Some None" by simp
  then show ?thesis by (simp add: in_check_def)
qed

theorem in_check_without_king_witness:
  "wf_grid (grid kingless_board) \<and> kings (grid kingless_board) White = [] \<and>
   king_position kingless_board White = Some None \<and> in_check kingless_board White = Some False"
proof -
  have 1: "wf_grid (grid kingless_board)" by (rule wf_fixtures)
  have 2: "kings (grid kingless_board) White = []" by code_simp
  from in_check_without_king [OF 1 2] 1 2 show ?thesis by simp
qed

end
